theory Spec2Isabelle
  imports Complex_Main "HOL-Library.Word"
begin

section \<open>Double-precision values\<close>

text \<open>
  \<^verbatim>\<open>typedef double T\<close>: the magnitude of a Scalar is an IEEE 754 binary64 value. It is
  modelled by its 64-bit pattern: bit 63 is the sign, bits 62..52 the biased exponent and
  bits 51..0 the fraction. Every pattern is a double, so no well-formedness side condition
  is needed anywhere.
\<close>

type_synonym double = "64 word"

definition sign_bit :: "double \<Rightarrow> bool" where
  "sign_bit w = (2 ^ 63 \<le> unat w)"

text \<open>The low 63 bits: exponent and fraction together.\<close>

definition mbits :: "double \<Rightarrow> nat" where
  "mbits w = unat w mod 2 ^ 63"

definition expo :: "double \<Rightarrow> nat" where
  "expo w = mbits w div 2 ^ 52"

definition fraction :: "double \<Rightarrow> nat" where
  "fraction w = mbits w mod 2 ^ 52"

definition pack :: "bool \<Rightarrow> nat \<Rightarrow> double" where
  "pack sg n = word_of_nat ((if sg then 2 ^ 63 else 0) + n)"

definition is_nan :: "double \<Rightarrow> bool" where
  "is_nan w = (expo w = 2047 \<and> fraction w \<noteq> 0)"

definition is_inf :: "double \<Rightarrow> bool" where
  "is_inf w = (expo w = 2047 \<and> fraction w = 0)"

definition is_finite :: "double \<Rightarrow> bool" where
  "is_finite w = (expo w < 2047)"

definition is_zero :: "double \<Rightarrow> bool" where
  "is_zero w = (mbits w = 0)"

text \<open>
  The absolute value of a finite double, counted in units of \<open>2 ^ -1074\<close> (the smallest
  subnormal), which makes it a natural number: a subnormal is its fraction, a normal
  number is \<open>(2 ^ 52 + fraction) * 2 ^ (exponent - 1)\<close>. The number one is
  \<open>unit_scale\<close> units.
\<close>

definition unit_scale :: nat where
  "unit_scale = 2 ^ 1074"

definition mag :: "double \<Rightarrow> nat" where
  "mag w = (if expo w = 0 then fraction w else (2 ^ 52 + fraction w) * 2 ^ (expo w - 1))"

definition sval :: "double \<Rightarrow> int" where
  "sval w = (if sign_bit w then - int (mag w) else int (mag w))"

subsection \<open>Rounding to nearest, ties to even\<close>

fun bit_length :: "nat \<Rightarrow> nat" where
  "bit_length n = (if n = 0 then 0 else Suc (bit_length (n div 2)))"

declare bit_length.simps [simp del]

definition inf_bits :: nat where
  "inf_bits = 2047 * 2 ^ 52"

text \<open>
  \<open>round_half_even num d\<close> is the integer nearest to \<open>num / d\<close>, the even one of the
  two when the quotient lies half-way between them.
\<close>

definition round_half_even :: "nat \<Rightarrow> nat \<Rightarrow> nat" where
  "round_half_even num d =
    (let f = num div d; r = num mod d
     in if 2 * r < d \<or> (2 * r = d \<and> even f) then f else f + 1)"

text \<open>
  \<open>round_units num den\<close> is the low 63 bits of the double nearest to the non-negative
  rational \<open>num / den\<close>, given in units of \<open>2 ^ -1074\<close>. With \<open>s\<close> the number of bits
  beyond 53 of the integer part, the quotient is rounded at granularity \<open>2 ^ s\<close>; since
  the bit patterns of the non-negative doubles are consecutive in the order of their
  values, the pattern is \<open>s * 2 ^ 52\<close> plus the rounded significand, a carry into the
  exponent included. Anything that reaches the pattern of infinity overflows to it.
\<close>

definition round_units :: "nat \<Rightarrow> nat \<Rightarrow> nat" where
  "round_units num den =
    (let s = bit_length (num div den) - 53
     in min inf_bits (s * 2 ^ 52 + round_half_even num (den * 2 ^ s)))"

text \<open>The value of a finite double as a rational number.\<close>

definition d_to_rat :: "double \<Rightarrow> rat" where
  "d_to_rat w = of_int (sval w) / of_nat unit_scale"

subsection \<open>Constants and conversions\<close>

text \<open>\<^verbatim>\<open>std::numeric_limits<T>::quiet_NaN()\<close> and \<^verbatim>\<open>std::numeric_limits<T>::infinity()\<close>.\<close>

definition quiet_NaN :: double where
  "quiet_NaN = 0x7FF8000000000000"

definition infinity :: double where
  "infinity = 0x7FF0000000000000"

text \<open>Conversion of an \<^verbatim>\<open>int\<close> to \<^verbatim>\<open>double\<close>, as in \<^verbatim>\<open>value(0)\<close> or \<^verbatim>\<open>Type(0)\<close>.\<close>

definition d_of_int :: "int \<Rightarrow> double" where
  "d_of_int i = pack (i < 0) (round_units (nat \<bar>i\<bar> * unit_scale) 1)"

text \<open>The double denoted by the positive decimal literal \<open>num / den\<close>.\<close>

definition d_of_literal :: "nat \<Rightarrow> nat \<Rightarrow> double" where
  "d_of_literal num den = pack False (round_units (num * unit_scale) den)"

subsection \<open>The built-in operators on double\<close>

text \<open>Unary minus flips the sign bit, of every value.\<close>

definition d_neg :: "double \<Rightarrow> double" where
  "d_neg a = pack (\<not> sign_bit a) (mbits a)"

text \<open>
  Comparisons: every ordered comparison with a NaN is false; the two zeros are equal;
  the infinities lie beyond every finite value.
\<close>

definition d_less :: "double \<Rightarrow> double \<Rightarrow> bool" where
  "d_less a b =
    (if is_nan a \<or> is_nan b then False
     else if is_inf a then sign_bit a \<and> \<not> (is_inf b \<and> sign_bit b)
     else if is_inf b then \<not> sign_bit b
     else sval a < sval b)"

definition d_equal :: "double \<Rightarrow> double \<Rightarrow> bool" where
  "d_equal a b =
    (if is_nan a \<or> is_nan b then False
     else if is_inf a \<or> is_inf b then a = b
     else sval a = sval b)"

definition d_greater :: "double \<Rightarrow> double \<Rightarrow> bool" where
  "d_greater a b = d_less b a"

definition d_less_eq :: "double \<Rightarrow> double \<Rightarrow> bool" where
  "d_less_eq a b = (d_less a b \<or> d_equal a b)"

definition d_greater_eq :: "double \<Rightarrow> double \<Rightarrow> bool" where
  "d_greater_eq a b = d_less_eq b a"

definition d_not_equal :: "double \<Rightarrow> double \<Rightarrow> bool" where
  "d_not_equal a b = (\<not> d_equal a b)"

text \<open>Conversion to \<^verbatim>\<open>bool\<close>, as in \<^verbatim>\<open>value ? ... : 0\<close> and \<^verbatim>\<open>!value\<close>: true unless zero.\<close>

definition d_to_bool :: "double \<Rightarrow> bool" where
  "d_to_bool a = d_not_equal a (d_of_int 0)"

text \<open>
  Arithmetic: the exact result, rounded. \<open>d_add\<close>: an exact zero sum is \<open>-0\<close> only when
  both operands are negative; opposite infinities give a NaN.
\<close>

definition d_add :: "double \<Rightarrow> double \<Rightarrow> double" where
  "d_add a b =
    (if is_nan a \<or> is_nan b then quiet_NaN
     else if is_inf a then (if is_inf b \<and> sign_bit a \<noteq> sign_bit b then quiet_NaN else a)
     else if is_inf b then b
     else let s = sval a + sval b in
       if s = 0 then pack (sign_bit a \<and> sign_bit b) 0
       else pack (s < 0) (round_units (nat \<bar>s\<bar>) 1))"

definition d_sub :: "double \<Rightarrow> double \<Rightarrow> double" where
  "d_sub a b = d_add a (d_neg b)"

definition d_mul :: "double \<Rightarrow> double \<Rightarrow> double" where
  "d_mul a b =
    (if is_nan a \<or> is_nan b then quiet_NaN
     else if (is_inf a \<and> is_zero b) \<or> (is_zero a \<and> is_inf b) then quiet_NaN
     else if is_inf a \<or> is_inf b then pack (sign_bit a \<noteq> sign_bit b) inf_bits
     else pack (sign_bit a \<noteq> sign_bit b) (round_units (mag a * mag b) unit_scale))"

definition d_div :: "double \<Rightarrow> double \<Rightarrow> double" where
  "d_div a b =
    (if is_nan a \<or> is_nan b then quiet_NaN
     else if (is_inf a \<and> is_inf b) \<or> (is_zero a \<and> is_zero b) then quiet_NaN
     else if is_inf a \<or> is_zero b then pack (sign_bit a \<noteq> sign_bit b) inf_bits
     else if is_inf b then pack (sign_bit a \<noteq> sign_bit b) 0
     else pack (sign_bit a \<noteq> sign_bit b) (round_units (mag a * unit_scale) (mag b)))"

text \<open>
  \<^verbatim>\<open>std::sqrt\<close>: the correctly rounded square root. For a positive finite \<open>a\<close> the
  root of \<open>mag a\<close> units of \<open>2 ^ -1074\<close> is \<open>sqrt (mag a * unit_scale)\<close> units. With
  \<open>r\<close> the integer root of four times that number, the root is \<open>r / 2\<close> when the
  square is exact, and lies strictly between \<open>r / 2\<close> and \<open>(r + 1) / 2\<close> otherwise; no
  double and no half-way point lies strictly between the two, so \<open>(2 * r + 1) / 4\<close>
  rounds as the root does.
\<close>

fun isqrt :: "nat \<Rightarrow> nat" where
  "isqrt n =
    (if n = 0 then 0
     else let r = 2 * isqrt (n div 4) in if (r + 1) * (r + 1) \<le> n then r + 1 else r)"

declare isqrt.simps [simp del]

definition d_sqrt :: "double \<Rightarrow> double" where
  "d_sqrt a =
    (if is_nan a then quiet_NaN
     else if is_zero a then a
     else if sign_bit a then quiet_NaN
     else if is_inf a then a
     else let n = 4 * (mag a * unit_scale); r = isqrt n in
       pack False (if r * r = n then round_units r 2 else round_units (2 * r + 1) 4))"

text \<open>
  \<^verbatim>\<open>fmod\<close> of the C library: the remainder of the division of the magnitudes truncated
  towards zero, with the sign of the dividend; it is always representable.
\<close>

definition d_fmod :: "double \<Rightarrow> double \<Rightarrow> double" where
  "d_fmod x y =
    (if is_nan x \<or> is_nan y \<or> is_inf x \<or> is_zero y then quiet_NaN
     else if is_inf y then x
     else pack (sign_bit x) (round_units (mag x mod mag y) 1))"

section \<open>Units\<close>

text \<open>
  Modelled from the spec: \<^verbatim>\<open>SIUnit.hpp\<close> (the template \<^verbatim>\<open>SIUnit::Unit\<close> and the macros
  \<^verbatim>\<open>SIUnitAdd\<close>, \<^verbatim>\<open>SIUnitSub\<close>, \<^verbatim>\<open>SIUnitMul\<close>, \<^verbatim>\<open>SIUnitDiv\<close>) is not part of the
  sources at hand. A Unit is a fixed-length vector of integer exponents, one per base
  dimension; the seven SI base dimensions (m, kg, s, A, K, mol, cd) are taken here.
  \<open>SIUnitAdd\<close> and \<open>SIUnitSub\<close> add and subtract the exponents component-wise,
  \<open>SIUnitMul\<close> multiplies every exponent by an integer, and \<open>SIUnitDiv\<close> divides every
  exponent by an integer and is defined only if every exponent is exactly divisible.
  \<open>dimensionless\<close> is \<^verbatim>\<open>SIUnit::Unit<>\<close>, with all exponents zero.
\<close>

datatype si_unit = Unit int int int int int int int

definition dimensionless :: si_unit where
  "dimensionless = Unit 0 0 0 0 0 0 0"

fun SIUnitAdd :: "si_unit \<Rightarrow> si_unit \<Rightarrow> si_unit" where
  "SIUnitAdd (Unit a1 a2 a3 a4 a5 a6 a7) (Unit b1 b2 b3 b4 b5 b6 b7) =
     Unit (a1 + b1) (a2 + b2) (a3 + b3) (a4 + b4) (a5 + b5) (a6 + b6) (a7 + b7)"

fun SIUnitSub :: "si_unit \<Rightarrow> si_unit \<Rightarrow> si_unit" where
  "SIUnitSub (Unit a1 a2 a3 a4 a5 a6 a7) (Unit b1 b2 b3 b4 b5 b6 b7) =
     Unit (a1 - b1) (a2 - b2) (a3 - b3) (a4 - b4) (a5 - b5) (a6 - b6) (a7 - b7)"

fun SIUnitMul :: "si_unit \<Rightarrow> int \<Rightarrow> si_unit" where
  "SIUnitMul (Unit a1 a2 a3 a4 a5 a6 a7) n =
     Unit (a1 * n) (a2 * n) (a3 * n) (a4 * n) (a5 * n) (a6 * n) (a7 * n)"

fun SIUnitDiv :: "si_unit \<Rightarrow> int \<Rightarrow> si_unit option" where
  "SIUnitDiv (Unit a1 a2 a3 a4 a5 a6 a7) n =
     (if n \<noteq> 0 \<and> n dvd a1 \<and> n dvd a2 \<and> n dvd a3 \<and> n dvd a4 \<and> n dvd a5 \<and> n dvd a6 \<and> n dvd a7
      then Some (Unit (a1 div n) (a2 div n) (a3 div n) (a4 div n) (a5 div n) (a6 div n) (a7 div n))
      else None)"

section \<open>Scalar\<close>

text \<open>
  \<^verbatim>\<open>template <typename U1 = SIUnit::Unit<> > struct Scalar { T value; ... }\<close>. The Unit
  is a template parameter, so it is part of the type of an expression and not of its
  run-time value; the model carries it as a tag beside the value. An expression that the
  declarations of the source do not accept for the units of its operands has no
  executable program: it is the result \<open>Inl UnitMismatch\<close>.
\<close>

record scalar =
  tag :: si_unit
  "value" :: double

datatype build_error = UnitMismatch

text \<open>
  The member functions of \<^verbatim>\<open>Scalar<U1>\<close> that take a Scalar, and the type of that
  parameter as declared: \<^verbatim>\<open>Type\<close> is \<^verbatim>\<open>Scalar<U1>\<close> itself, \<^verbatim>\<open>Scalar<U2>\<close> is the
  parameter of a member template, and \<^verbatim>\<open>Scalar<>\<close> is the dimensionless Scalar. No
  conversion leads from a \<^verbatim>\<open>Scalar<U2>\<close> to a \<^verbatim>\<open>Scalar<U1>\<close> of another Unit: the only
  constructors take a \<^verbatim>\<open>T\<close> or a \<^verbatim>\<open>Type\<close>, and the only conversion function of a Scalar
  yields a pointer to member.
\<close>

datatype operation =
  CopyConstruct | InfDir
  | Less | Greater | LessEq | GreaterEq | Equal | NotEqual
  | Plus | Minus | Times | Divide
  | PlusAssign | MinusAssign | DivideAssign | TimesAssign
  | Modulo

datatype param_type = SameUnit | AnyUnit | NoUnit

fun declared_param :: "operation \<Rightarrow> param_type" where
  "declared_param CopyConstruct = SameUnit"
| "declared_param InfDir = SameUnit"
| "declared_param Less = SameUnit"
| "declared_param Greater = SameUnit"
| "declared_param LessEq = SameUnit"
| "declared_param GreaterEq = SameUnit"
| "declared_param Equal = SameUnit"
| "declared_param NotEqual = SameUnit"
| "declared_param Plus = SameUnit"
| "declared_param Minus = SameUnit"
| "declared_param Times = AnyUnit"
| "declared_param Divide = AnyUnit"
| "declared_param PlusAssign = SameUnit"
| "declared_param MinusAssign = SameUnit"
| "declared_param DivideAssign = NoUnit"
| "declared_param TimesAssign = NoUnit"
| "declared_param Modulo = SameUnit"

definition accepts :: "operation \<Rightarrow> si_unit \<Rightarrow> si_unit \<Rightarrow> bool" where
  "accepts f U1 U2 =
    (case declared_param f of
       SameUnit \<Rightarrow> U2 = U1
     | AnyUnit \<Rightarrow> True
     | NoUnit \<Rightarrow> U2 = dimensionless)"

text \<open>Constructors: \<^verbatim>\<open>Scalar()\<close>, \<^verbatim>\<open>Scalar(T _val)\<close> and the special values.\<close>

definition Scalar :: "si_unit \<Rightarrow> double \<Rightarrow> scalar" where
  "Scalar U v = \<lparr>tag = U, value = v\<rparr>"

definition Scalar_default :: "si_unit \<Rightarrow> scalar" where
  "Scalar_default U = \<lparr>tag = U, value = d_of_int 0\<rparr>"

definition zero :: "si_unit \<Rightarrow> scalar" where
  "zero U = Scalar U (d_of_int 0)"

definition nan :: "si_unit \<Rightarrow> scalar" where
  "nan U = Scalar U quiet_NaN"

definition infP :: "si_unit \<Rightarrow> scalar" where
  "infP U = Scalar U infinity"

definition infN :: "si_unit \<Rightarrow> scalar" where
  "infN U = Scalar U (d_neg infinity)"

definition inf_scalar :: "si_unit \<Rightarrow> scalar" where
  "inf_scalar U = infP U"

definition inf_dir :: "si_unit \<Rightarrow> scalar \<Rightarrow> build_error + scalar" where
  "inf_dir U dir =
    (if accepts InfDir U (tag dir)
     then Inr (if d_less (value dir) (d_of_int 0) then infN U else infP U)
     else Inl UnitMismatch)"

text \<open>
  \<^verbatim>\<open>static Type pi()\<close> is a member of every \<^verbatim>\<open>Scalar<U1>\<close>; it converts the literal
  \<^verbatim>\<open>3.1415926535897932384626433832795028841971693993751\<close> to \<^verbatim>\<open>T\<close>.
\<close>

definition pi_scalar :: "si_unit \<Rightarrow> scalar" where
  "pi_scalar U = Scalar U (d_of_literal 31415926535897932384626433832795028841971693993751 (10 ^ 49))"

text \<open>Checks for special cases, \<^verbatim>\<open>strip\<close>, the opposite value and the use in conditions.\<close>

definition isNaN :: "scalar \<Rightarrow> bool" where
  "isNaN x = d_not_equal (value x) (value x)"

definition isInf :: "scalar \<Rightarrow> bool" where
  "isInf x = (d_equal (value x) (value (infP (tag x))) \<or> d_equal (value x) (value (infN (tag x))))"

definition isZero :: "scalar \<Rightarrow> bool" where
  "isZero x = d_equal (value x) (d_of_int 0)"

definition strip :: "scalar \<Rightarrow> scalar" where
  "strip x = Scalar dimensionless (value x)"

definition op_neg :: "scalar \<Rightarrow> scalar" where
  "op_neg x = Scalar (tag x) (d_neg (value x))"

text \<open>
  \<^verbatim>\<open>operator BoolDummyType\<close> returns a non-null pointer to member exactly when
  \<^verbatim>\<open>value\<close> converts to true; the model returns whether the pointer is non-null.
\<close>

definition op_bool :: "scalar \<Rightarrow> bool" where
  "op_bool x = (if d_to_bool (value x) then True else False)"

definition op_not :: "scalar \<Rightarrow> bool" where
  "op_not x = (\<not> d_to_bool (value x))"

text \<open>Comparisons, addition and subtraction: the parameter is a \<^verbatim>\<open>Type const&\<close>.\<close>

definition op_less :: "scalar \<Rightarrow> scalar \<Rightarrow> build_error + bool" where
  "op_less x t =
    (if accepts Less (tag x) (tag t) then Inr (d_less (value x) (value t))
     else Inl UnitMismatch)"

definition op_greater :: "scalar \<Rightarrow> scalar \<Rightarrow> build_error + bool" where
  "op_greater x t =
    (if accepts Greater (tag x) (tag t) then Inr (d_greater (value x) (value t))
     else Inl UnitMismatch)"

definition op_less_eq :: "scalar \<Rightarrow> scalar \<Rightarrow> build_error + bool" where
  "op_less_eq x t =
    (if accepts LessEq (tag x) (tag t) then Inr (d_less_eq (value x) (value t))
     else Inl UnitMismatch)"

definition op_greater_eq :: "scalar \<Rightarrow> scalar \<Rightarrow> build_error + bool" where
  "op_greater_eq x t =
    (if accepts GreaterEq (tag x) (tag t) then Inr (d_greater_eq (value x) (value t))
     else Inl UnitMismatch)"

definition op_equal :: "scalar \<Rightarrow> scalar \<Rightarrow> build_error + bool" where
  "op_equal x t =
    (if accepts Equal (tag x) (tag t) then Inr (d_equal (value x) (value t))
     else Inl UnitMismatch)"

definition op_not_equal :: "scalar \<Rightarrow> scalar \<Rightarrow> build_error + bool" where
  "op_not_equal x t =
    (if accepts NotEqual (tag x) (tag t) then Inr (d_not_equal (value x) (value t))
     else Inl UnitMismatch)"

definition op_plus :: "scalar \<Rightarrow> scalar \<Rightarrow> build_error + scalar" where
  "op_plus x t =
    (if accepts Plus (tag x) (tag t) then Inr (Scalar (tag x) (d_add (value x) (value t)))
     else Inl UnitMismatch)"

definition op_minus :: "scalar \<Rightarrow> scalar \<Rightarrow> build_error + scalar" where
  "op_minus x t =
    (if accepts Minus (tag x) (tag t) then Inr (Scalar (tag x) (d_sub (value x) (value t)))
     else Inl UnitMismatch)"

text \<open>
  Multiplication and division are member templates over the Unit of the operand; the
  result is a \<^verbatim>\<open>Scalar<SIUnitAdd(U1, U2)>\<close> or a \<^verbatim>\<open>Scalar<SIUnitSub(U1, U2)>\<close>.
\<close>

definition op_times :: "scalar \<Rightarrow> scalar \<Rightarrow> build_error + scalar" where
  "op_times x t =
    (if accepts Times (tag x) (tag t)
     then Inr (Scalar (SIUnitAdd (tag x) (tag t)) (d_mul (value x) (value t)))
     else Inl UnitMismatch)"

definition op_divide :: "scalar \<Rightarrow> scalar \<Rightarrow> build_error + scalar" where
  "op_divide x t =
    (if accepts Divide (tag x) (tag t)
     then Inr (Scalar (SIUnitSub (tag x) (tag t)) (d_div (value x) (value t)))
     else Inl UnitMismatch)"

text \<open>
  Assignment shorthands: \<^verbatim>\<open>*this = *this + t\<close> and so on. The assignment needs the
  result of the operator to be a \<^verbatim>\<open>Scalar<U1>\<close> again.
\<close>

definition assign :: "scalar \<Rightarrow> build_error + scalar \<Rightarrow> build_error + scalar" where
  "assign x r =
    (case r of
       Inl e \<Rightarrow> Inl e
     | Inr y \<Rightarrow> if accepts CopyConstruct (tag x) (tag y) then Inr y else Inl UnitMismatch)"

definition op_plus_assign :: "scalar \<Rightarrow> scalar \<Rightarrow> build_error + scalar" where
  "op_plus_assign x t =
    (if accepts PlusAssign (tag x) (tag t) then assign x (op_plus x t) else Inl UnitMismatch)"

definition op_minus_assign :: "scalar \<Rightarrow> scalar \<Rightarrow> build_error + scalar" where
  "op_minus_assign x t =
    (if accepts MinusAssign (tag x) (tag t) then assign x (op_minus x t) else Inl UnitMismatch)"

definition op_divide_assign :: "scalar \<Rightarrow> scalar \<Rightarrow> build_error + scalar" where
  "op_divide_assign x t =
    (if accepts DivideAssign (tag x) (tag t) then assign x (op_divide x t) else Inl UnitMismatch)"

definition op_times_assign :: "scalar \<Rightarrow> scalar \<Rightarrow> build_error + scalar" where
  "op_times_assign x t =
    (if accepts TimesAssign (tag x) (tag t) then assign x (op_times x t) else Inl UnitMismatch)"

text \<open>Absolute value: \<^verbatim>\<open>Type(value < 0 ? -value : value)\<close>.\<close>

definition abs_scalar :: "scalar \<Rightarrow> scalar" where
  "abs_scalar x =
    Scalar (tag x) (if d_less (value x) (d_of_int 0) then d_neg (value x) else value x)"

text \<open>Square and modulo.\<close>

definition pow2 :: "scalar \<Rightarrow> build_error + scalar" where
  "pow2 x = op_times x x"

definition mod_scalar :: "scalar \<Rightarrow> scalar \<Rightarrow> build_error + scalar" where
  "mod_scalar x divisor =
    (if accepts Modulo (tag x) (tag divisor)
     then Inr (Scalar (tag x) (d_fmod (value x) (value divisor)))
     else Inl UnitMismatch)"

text \<open>
  Square root. \<^verbatim>\<open>_sqrtHelper<U1>\<close> takes a \<^verbatim>\<open>Scalar<SIUnitMul(U1, 2)>\<close> and returns a
  \<^verbatim>\<open>Scalar<U1>\<close>; \<^verbatim>\<open>sqrt\<close> calls it at \<^verbatim>\<open>SIUnitDiv(U1, 2)\<close>, so the argument has to be
  of the Unit that doubling the halved Unit gives.
\<close>

definition sqrtHelper :: "si_unit \<Rightarrow> scalar \<Rightarrow> build_error + scalar" where
  "sqrtHelper U1 x =
    (if tag x = SIUnitMul U1 2 then Inr (Scalar U1 (d_sqrt (value x)))
     else Inl UnitMismatch)"

definition sqrt_scalar :: "scalar \<Rightarrow> build_error + scalar" where
  "sqrt_scalar x =
    (case SIUnitDiv (tag x) 2 of
       None \<Rightarrow> Inl UnitMismatch
     | Some U \<Rightarrow> sqrtHelper U x)"

section \<open>Facts about the encoding\<close>

lemma unat_pack: "n < 2 ^ 63 \<Longrightarrow> unat (pack sg n) = (if sg then 2 ^ 63 else 0) + n"
proof -
  assume n: "n < 2 ^ 63"
  have *: "unat (word_of_nat k :: 64 word) = k mod 2 ^ 64" for k
    by (simp add: unat_of_nat)
  show ?thesis
    unfolding pack_def * using n by (cases sg) simp_all
qed

lemma mbits_pack: "n < 2 ^ 63 \<Longrightarrow> mbits (pack sg n) = n"
  by (simp add: mbits_def unat_pack)

lemma sign_bit_pack: "n < 2 ^ 63 \<Longrightarrow> sign_bit (pack sg n) = sg"
  by (simp add: sign_bit_def unat_pack)

lemma mbits_less: "mbits w < 2 ^ 63"
  by (simp add: mbits_def)

lemma bit_length_0: "bit_length 0 = 0"
  by (simp add: bit_length.simps)

lemma bit_length_eq: "2 ^ k \<le> n \<Longrightarrow> n < 2 ^ Suc k \<Longrightarrow> bit_length n = Suc k"
proof (induction k arbitrary: n)
  case 0
  then have "n = 1" by simp
  then show ?case by (simp add: bit_length.simps)
next
  case (Suc k)
  have "2 ^ k \<le> n div 2" using Suc.prems by simp
  moreover have "n div 2 < 2 ^ Suc k" using Suc.prems by simp
  ultimately have "bit_length (n div 2) = Suc k" by (rule Suc.IH)
  moreover have "n \<noteq> 0" using Suc.prems by auto
  ultimately show ?case by (subst bit_length.simps) simp
qed

lemma round_units_0: "round_units 0 den = 0"
  by (auto simp: round_units_def round_half_even_def bit_length_0)

lemma d_of_int_0: "d_of_int 0 = 0"
  by (simp add: d_of_int_def round_units_0 pack_def)

lemmas decode_defs = is_nan_def is_inf_def is_zero_def expo_def fraction_def mbits_def sign_bit_def

lemma nan_quiet_NaN: "is_nan quiet_NaN"
  by (simp add: decode_defs quiet_NaN_def)

lemma d_neg_0: "d_neg 0 = 0x8000000000000000"
  by (simp add: d_neg_def decode_defs pack_def)

lemma neg_zero_facts:
  "\<not> is_nan 0x8000000000000000" "\<not> is_inf 0x8000000000000000" "sval 0x8000000000000000 = 0"
  by (simp_all add: decode_defs sval_def mag_def)

lemma zero_facts: "\<not> is_nan 0" "\<not> is_inf 0" "sval 0 = 0"
  by (simp_all add: decode_defs sval_def mag_def)

lemma d_equal_nan: "is_nan a \<or> is_nan b \<Longrightarrow> \<not> d_equal a b"
  by (simp add: d_equal_def)

lemma d_less_nan: "is_nan a \<or> is_nan b \<Longrightarrow> \<not> d_less a b"
  by (simp add: d_less_def)

lemma isNaN_iff: "isNaN x = is_nan (value x)"
  by (auto simp: isNaN_def d_not_equal_def d_equal_def)

section \<open>The default constructor and the zeros\<close>

text \<open>
  Claim C9. For every Unit \<open>U\<close>, the default-constructed \<^verbatim>\<open>Scalar<U>()\<close> has
  magnitude 0 (all bits clear, the positive zero): it is the value that \<^verbatim>\<open>zero()\<close>
  returns, \<^verbatim>\<open>==\<close> holds between the two, and its \<^verbatim>\<open>isZero()\<close> is true.
\<close>

theorem default_is_zero:
  "Scalar_default U = zero U \<and> isZero (Scalar_default U) \<and> value (Scalar_default U) = 0
   \<and> op_equal (Scalar_default U) (zero U) = Inr True"
  by (simp add: Scalar_default_def zero_def Scalar_def isZero_def op_equal_def accepts_def
      d_of_int_0 d_equal_def zero_facts)

text \<open>
  Claim C10. For every Unit \<open>U\<close>, the negative zero \<^verbatim>\<open>-0.0\<close> (sign bit set, all other
  bits clear) satisfies \<^verbatim>\<open>isZero()\<close>, since the check is the comparison \<^verbatim>\<open>value == 0\<close>
  in which the two zeros are equal; its conversion for use in a condition is false and
  \<^verbatim>\<open>operator !\<close> is true.
\<close>

theorem negative_zero_isZero:
  "d_neg (d_of_int 0) = 0x8000000000000000
   \<and> isZero (Scalar U (d_neg (d_of_int 0)))
   \<and> \<not> op_bool (Scalar U (d_neg (d_of_int 0)))
   \<and> op_not (Scalar U (d_neg (d_of_int 0)))"
  by (simp add: Scalar_def isZero_def op_bool_def op_not_def d_to_bool_def d_not_equal_def
      d_of_int_0 d_neg_0 d_equal_def zero_facts neg_zero_facts)

section \<open>NaN\<close>

lemma nan_operand:
  assumes "is_nan (value x) \<or> is_nan (value t)" and "tag t = tag x"
  shows "op_less x t = Inr False \<and> op_greater x t = Inr False
    \<and> op_less_eq x t = Inr False \<and> op_greater_eq x t = Inr False
    \<and> op_equal x t = Inr False \<and> op_not_equal x t = Inr True"
proof -
  have "\<not> d_equal (value x) (value t)" "\<not> d_equal (value t) (value x)"
    "\<not> d_less (value x) (value t)" "\<not> d_less (value t) (value x)"
    using assms(1) by (auto simp: d_equal_nan d_less_nan)
  then show ?thesis
    using assms(2)
    by (simp add: op_equal_def op_less_def op_greater_def op_less_eq_def op_greater_eq_def
        op_not_equal_def accepts_def d_greater_def d_less_eq_def d_greater_eq_def
        d_not_equal_def)
qed

text \<open>
  Claim C6. For every Unit \<open>U\<close>: \<^verbatim>\<open>nan().isNaN()\<close> is true and \<^verbatim>\<open>nan() == nan()\<close> is
  false; when either operand of a comparison between Scalars of one Unit is a NaN, the
  operators \<^verbatim>\<open><\<close>, \<^verbatim>\<open>>\<close>, \<^verbatim>\<open><=\<close>, \<^verbatim>\<open>>=\<close> and \<^verbatim>\<open>==\<close> return false and \<^verbatim>\<open>!=\<close>
  returns true; and \<^verbatim>\<open>isNaN()\<close> is the comparison of the magnitude with itself for
  inequality, which is true exactly for the NaN bit patterns.
\<close>

theorem nan_comparisons:
  "isNaN (nan U) \<and> op_equal (nan U) (nan U) = Inr False
   \<and> ((is_nan (value x) \<or> is_nan (value t)) \<and> tag t = tag x \<longrightarrow>
        op_less x t = Inr False \<and> op_greater x t = Inr False
        \<and> op_less_eq x t = Inr False \<and> op_greater_eq x t = Inr False
        \<and> op_equal x t = Inr False \<and> op_not_equal x t = Inr True)
   \<and> isNaN y = d_not_equal (value y) (value y)
   \<and> isNaN y = is_nan (value y)"
proof -
  have "isNaN (nan U)"
    by (simp add: isNaN_iff nan_def Scalar_def nan_quiet_NaN)
  moreover have "op_equal (nan U) (nan U) = Inr False"
    using nan_operand [of "nan U" "nan U"] by (simp add: nan_def Scalar_def nan_quiet_NaN)
  moreover have "isNaN y = d_not_equal (value y) (value y)"
    by (simp add: isNaN_def)
  ultimately show ?thesis
    using nan_operand [of x t] isNaN_iff [of y] by blast
qed

theorem nan_comparisons_witness:
  "isNaN (nan dimensionless) \<and> op_equal (nan dimensionless) (nan dimensionless) = Inr False
   \<and> op_less (nan dimensionless) (zero dimensionless) = Inr False
   \<and> op_greater (nan dimensionless) (zero dimensionless) = Inr False
   \<and> op_less_eq (nan dimensionless) (zero dimensionless) = Inr False
   \<and> op_greater_eq (nan dimensionless) (zero dimensionless) = Inr False
   \<and> op_not_equal (nan dimensionless) (zero dimensionless) = Inr True"
proof -
  have h: "is_nan (value (nan dimensionless))"
    by (simp add: nan_def Scalar_def nan_quiet_NaN)
  have u: "tag (zero dimensionless) = tag (nan dimensionless)"
    by (simp add: nan_def zero_def Scalar_def)
  show ?thesis
    using nan_comparisons [of dimensionless "nan dimensionless" "zero dimensionless" "nan dimensionless"] h u
    by blast
qed

section \<open>Rounding\<close>

lemma bit_length_le: "n < 2 ^ k \<Longrightarrow> bit_length n \<le> k"
proof (induction k arbitrary: n)
  case 0
  then show ?case by (simp add: bit_length_0)
next
  case (Suc k)
  have "n div 2 < 2 ^ k" using Suc.prems by simp
  then have "bit_length (n div 2) \<le> k" by (rule Suc.IH)
  then show ?case by (subst bit_length.simps) simp
qed

lemma bit_length_high:
  assumes "2 ^ (52 + s) \<le> n" and "n < 2 ^ (53 + s)"
  shows "bit_length n - 53 = s"
proof -
  have "bit_length n = Suc (52 + s)"
    using assms by (intro bit_length_eq) simp_all
  then show ?thesis by simp
qed

lemma bit_length_low: "n < 2 ^ 53 \<Longrightarrow> bit_length n - 53 = 0"
  using bit_length_le [of n 53] by simp

lemma rhe_exact: "0 < d \<Longrightarrow> round_half_even (m * d) d = m"
  by (simp add: round_half_even_def)

lemma rhe_scale: "0 < k \<Longrightarrow> round_half_even (k * num) (k * d) = round_half_even num d"
  by (simp add: round_half_even_def Let_def mult_mod_right [symmetric])

lemma rhe_cases: "round_half_even num d = num div d \<or> round_half_even num d = num div d + 1"
  by (simp add: round_half_even_def Let_def)

lemma rhe_error:
  assumes "0 < d"
  shows "2 * (round_half_even num d * d) \<le> 2 * num + d"
    and "2 * num \<le> 2 * (round_half_even num d * d) + d"
proof -
  define f where "f = num div d"
  define r where "r = num mod d"
  define P where "P = round_half_even num d"
  have num: "num = f * d + r" by (simp add: f_def r_def)
  have r: "r < d" using assms by (simp add: r_def)
  have P: "P = (if 2 * r < d \<or> (2 * r = d \<and> even f) then f else f + 1)"
    by (simp add: P_def round_half_even_def Let_def f_def r_def)
  have "2 * (P * d) \<le> 2 * num + d \<and> 2 * num \<le> 2 * (P * d) + d"
  proof (cases "2 * r < d \<or> (2 * r = d \<and> even f)")
    case True
    then have "P = f" by (simp add: P)
    then show ?thesis using True by (auto simp: num)
  next
    case False
    then have "P = f + 1" by (simp add: P)
    moreover have "d \<le> 2 * r" using False by auto
    ultimately show ?thesis using r by (simp add: num algebra_simps)
  qed
  then show "2 * (round_half_even num d * d) \<le> 2 * num + d"
    and "2 * num \<le> 2 * (round_half_even num d * d) + d"
    by (simp_all add: P_def)
qed

lemma rhe_near:
  assumes "0 < d" and "2 * (m * d) < 2 * num + d" and "2 * num < 2 * (m * d) + d"
  shows "round_half_even num d = m"
proof -
  define P where "P = round_half_even num d"
  have 1: "2 * (P * d) \<le> 2 * num + d" and 2: "2 * num \<le> 2 * (P * d) + d"
    unfolding P_def using rhe_error [OF assms(1)] by auto
  have "2 * (m * d) < 2 * (P * d) + 2 * d" using assms(2) 2 by linarith
  then have "(2 * m) * d < (2 * P + 2) * d" by (simp add: algebra_simps)
  then have a: "2 * m < 2 * P + 2" using mult_less_cancel2 by blast
  have "2 * (P * d) < 2 * (m * d) + 2 * d" using assms(3) 1 by linarith
  then have "(2 * P) * d < (2 * m + 2) * d" by (simp add: algebra_simps)
  then have b: "2 * P < 2 * m + 2" using mult_less_cancel2 by blast
  from a b show ?thesis unfolding P_def by linarith
qed

lemma rhe_bounds:
  assumes "0 < d" and "lo * d \<le> num" and "num < hi * d"
  shows "lo \<le> round_half_even num d" and "round_half_even num d \<le> hi"
proof -
  have "lo \<le> num div d" using assms by (simp add: less_eq_div_iff_mult_less_eq)
  moreover have "num div d < hi" using assms by (simp add: div_less_iff_less_mult)
  ultimately show "lo \<le> round_half_even num d" and "round_half_even num d \<le> hi"
    using rhe_cases [of num d] by auto
qed

lemma ru_high:
  assumes "0 < den" and "2 ^ (52 + s) * den \<le> num" and "num < 2 ^ (53 + s) * den"
  shows "round_units num den = min inf_bits (s * 2 ^ 52 + round_half_even num (den * 2 ^ s))"
proof -
  have "2 ^ (52 + s) \<le> num div den"
    using assms by (simp add: less_eq_div_iff_mult_less_eq)
  moreover have "num div den < 2 ^ (53 + s)"
    using assms by (simp add: div_less_iff_less_mult)
  ultimately have "bit_length (num div den) - 53 = s" by (rule bit_length_high)
  then show ?thesis by (simp add: round_units_def)
qed

lemma ru_low:
  assumes "0 < den" and "num < 2 ^ 53 * den"
  shows "round_units num den = round_half_even num den"
proof -
  have "num div den < 2 ^ 53"
    using assms by (simp add: div_less_iff_less_mult)
  then have s: "bit_length (num div den) - 53 = 0" by (rule bit_length_low)
  have "round_half_even num den \<le> 2 ^ 53"
    using rhe_bounds(2) [OF assms(1) _ assms(2), of 0] by simp
  then have "round_half_even num den \<le> inf_bits" by (simp add: inf_bits_def)
  then show ?thesis by (simp add: round_units_def s)
qed

lemma round_units_le: "round_units num den \<le> inf_bits"
  by (simp add: round_units_def Let_def)

section \<open>Decoding packed values\<close>

lemma expo_pack: "n < 2 ^ 63 \<Longrightarrow> expo (pack sg n) = n div 2 ^ 52"
  by (simp add: expo_def mbits_pack)

lemma fraction_pack: "n < 2 ^ 63 \<Longrightarrow> fraction (pack sg n) = n mod 2 ^ 52"
  by (simp add: fraction_def mbits_pack)

lemma inf_bits_less: "inf_bits < 2 ^ 63"
  by (simp add: inf_bits_def)

lemma not_nan_pack:
  assumes "n \<le> inf_bits"
  shows "\<not> is_nan (pack sg n)"
proof -
  have n: "n < 2 ^ 63" using assms inf_bits_less by linarith
  show ?thesis
  proof (cases "n = inf_bits")
    case True
    then have "fraction (pack sg n) = inf_bits mod 2 ^ 52"
      using fraction_pack [OF inf_bits_less] by simp
    then show ?thesis by (simp add: is_nan_def inf_bits_def)
  next
    case False
    then have "n < 2047 * 2 ^ 52" using assms by (simp add: inf_bits_def)
    then have "n div 2 ^ 52 < 2047" by (simp add: div_less_iff_less_mult)
    then show ?thesis by (simp add: is_nan_def expo_pack n)
  qed
qed

lemma finite_pack:
  assumes "n < inf_bits"
  shows "is_finite (pack sg n)"
proof -
  have n: "n < 2 ^ 63" using assms inf_bits_less by linarith
  have "n < 2047 * 2 ^ 52" using assms by (simp add: inf_bits_def)
  then have "n div 2 ^ 52 < 2047" by (simp add: div_less_iff_less_mult)
  then show ?thesis by (simp add: is_finite_def expo_pack n)
qed

lemma finite_not_nan_inf: "is_finite a \<Longrightarrow> \<not> is_nan a \<and> \<not> is_inf a"
  by (simp add: is_finite_def is_nan_def is_inf_def)

lemma is_inf_pack: "is_inf (pack sg inf_bits)"
proof -
  have "expo (pack sg inf_bits) = inf_bits div 2 ^ 52"
    and "fraction (pack sg inf_bits) = inf_bits mod 2 ^ 52"
    using expo_pack [OF inf_bits_less] fraction_pack [OF inf_bits_less] by simp_all
  then show ?thesis by (simp add: is_inf_def inf_bits_def)
qed

lemma mag_mbits:
  assumes "mbits w = s * 2 ^ 52 + P" and "P \<le> 2 ^ 53" and "s = 0 \<or> 2 ^ 52 \<le> P"
  shows "mag w = P * 2 ^ s"
proof -
  consider (sub) "P < 2 ^ 52" | (norm) "2 ^ 52 \<le> P" "P < 2 ^ 53" | (carry) "P = 2 ^ 53"
    using assms(2) by linarith
  then show ?thesis
  proof cases
    case sub
    then have s: "s = 0" using assms(3) by auto
    have "expo w = 0" using sub by (simp add: expo_def assms(1) s)
    moreover have "fraction w = P" using sub by (simp add: fraction_def assms(1) s)
    ultimately show ?thesis by (simp add: mag_def s)
  next
    case norm
    have "P div 2 ^ 52 = 1"
      using norm by (intro div_nat_eqI) simp_all
    then have e: "expo w = s + 1" by (simp add: expo_def assms(1))
    have "P mod 2 ^ 52 = P - 2 ^ 52"
      using norm by (simp add: mod_if)
    then have "fraction w = P - 2 ^ 52" by (simp add: fraction_def assms(1))
    then show ?thesis using norm by (simp add: mag_def e)
  next
    case carry
    have e: "expo w = s + 2" by (simp add: expo_def assms(1) carry)
    have "fraction w = 0" by (simp add: fraction_def assms(1) carry)
    then show ?thesis by (simp add: mag_def e carry)
  qed
qed

lemma mbits_decompose:
  "mbits w = (expo w - 1) * 2 ^ 52 + (if expo w = 0 then fraction w else 2 ^ 52 + fraction w)"
proof -
  have "mbits w = expo w * 2 ^ 52 + fraction w"
    by (simp add: expo_def fraction_def)
  then show ?thesis by (cases "expo w") simp_all
qed

lemma fraction_less: "fraction w < 2 ^ 52"
  by (simp add: fraction_def)

lemma pack_decode: "pack (sign_bit w) (mbits w) = w"
proof -
  have "unat w < 2 ^ 64" using unsigned_less [of w] by simp
  then have "(if sign_bit w then 2 ^ 63 else 0) + mbits w = unat w"
    by (auto simp: sign_bit_def mbits_def mod_if)
  then show ?thesis by (simp add: pack_def)
qed

lemma mag_pos: "is_finite a \<Longrightarrow> \<not> is_zero a \<Longrightarrow> 0 < mag a"
  using mbits_decompose [of a] by (auto simp: mag_def is_zero_def)

section \<open>Magnitudes that are doubles\<close>

lemma ru_exact_high:
  assumes "2 ^ 52 \<le> P" and "P < 2 ^ 53" and "0 < den"
  shows "round_units (P * 2 ^ s * den) den = min inf_bits (s * 2 ^ 52 + P)"
proof -
  have "2 ^ (52 + s) * den \<le> P * 2 ^ s * den"
    using assms(1) by (simp add: power_add)
  moreover have "P * 2 ^ s * den < 2 ^ (53 + s) * den"
    using assms(2,3) by (simp add: power_add)
  ultimately have "round_units (P * 2 ^ s * den) den =
      min inf_bits (s * 2 ^ 52 + round_half_even (P * 2 ^ s * den) (den * 2 ^ s))"
    using assms(3) by (intro ru_high) simp_all
  moreover have "round_half_even (P * (den * 2 ^ s)) (den * 2 ^ s) = P"
    using assms(3) by (intro rhe_exact) simp
  ultimately show ?thesis by (simp add: mult.assoc mult.commute [of den])
qed

lemma ru_exact_low:
  assumes "P < 2 ^ 53" and "0 < den"
  shows "round_units (P * den) den = P"
  using assms by (simp add: ru_low rhe_exact)

lemma bit_length_bounds:
  "0 < n \<Longrightarrow> 2 ^ (bit_length n - 1) \<le> n \<and> n < 2 ^ bit_length n"
proof (induction n rule: bit_length.induct)
  case (1 n)
  show ?case
  proof (cases "n div 2 = 0")
    case True
    then have "n = 1" using "1.prems" by (auto simp: div_eq_0_iff)
    then show ?thesis by (simp add: bit_length.simps)
  next
    case False
    then have ih: "2 ^ (bit_length (n div 2) - 1) \<le> n div 2 \<and> n div 2 < 2 ^ bit_length (n div 2)"
      using "1.IH" "1.prems" by simp
    have pos: "0 < bit_length (n div 2)"
      using False by (subst bit_length.simps) simp
    have bl: "bit_length n = Suc (bit_length (n div 2))"
      using "1.prems" by (subst bit_length.simps) simp
    have "2 * 2 ^ (bit_length (n div 2) - 1) \<le> n" using ih by linarith
    moreover have "2 * 2 ^ (bit_length (n div 2) - 1) = (2::nat) ^ bit_length (n div 2)"
      using pos by (cases "bit_length (n div 2)") simp_all
    moreover have "n < 2 * 2 ^ bit_length (n div 2)" using ih by linarith
    ultimately show ?thesis by (simp add: bl)
  qed
qed

text \<open>A magnitude with at most 53 significant bits below the overflow threshold is a double.\<close>

lemma ru_exact_dvd:
  assumes "N < 2 ^ 2098" and "2 ^ (bit_length N - 53) dvd N"
  shows "round_units N 1 < inf_bits" and "mag (pack sg (round_units N 1)) = N"
proof -
  define s where "s = bit_length N - 53"
  define P where "P = N div 2 ^ s"
  have N: "N = P * 2 ^ s" using assms(2) by (simp add: P_def s_def)
  have "round_units N 1 < inf_bits \<and> mag (pack sg (round_units N 1)) = N"
  proof (cases "N < 2 ^ 53")
    case True
    have ru: "round_units N 1 = N" using ru_exact_low [OF True, of 1] by simp
    have "N < inf_bits" using True by (simp add: inf_bits_def)
    moreover have "mbits (pack sg N) = 0 * 2 ^ 52 + N"
      using True by (simp add: mbits_pack)
    then have "mag (pack sg N) = N * 2 ^ 0"
      using True by (intro mag_mbits) simp_all
    ultimately show ?thesis unfolding ru by simp
  next
    case False
    then have pos: "0 < N" by simp
    have bl: "54 \<le> bit_length N"
    proof (rule ccontr)
      assume "\<not> 54 \<le> bit_length N"
      then have "bit_length N \<le> 53" by simp
      then have "(2::nat) ^ bit_length N \<le> 2 ^ 53" by (intro power_increasing) simp_all
      then show False using False bit_length_bounds [OF pos] by linarith
    qed
    have L: "bit_length N = s + 53" using bl by (simp add: s_def)
    have lo: "2 ^ (s + 52) \<le> N" and hi: "N < 2 ^ (s + 53)"
      using bit_length_bounds [OF pos] by (simp_all add: L add.commute)
    have P52: "2 ^ 52 \<le> P"
    proof -
      have "(2::nat) ^ 52 * 2 ^ s \<le> P * 2 ^ s" using lo N by (simp add: power_add mult.commute)
      then show ?thesis by simp
    qed
    have P53: "P < 2 ^ 53"
    proof -
      have "P * 2 ^ s < (2::nat) ^ 53 * 2 ^ s" using hi N by (simp add: power_add mult.commute)
      then show ?thesis by simp
    qed
    have s: "s \<le> 2045"
    proof (rule ccontr)
      assume "\<not> s \<le> 2045"
      then have "2046 \<le> s" by simp
      then have "(2::nat) ^ (2046 + 52) \<le> 2 ^ (s + 52)"
        by (intro power_increasing) simp_all
      then show False using lo assms(1) by simp
    qed
    have "s * 2 ^ 52 \<le> 2045 * (2::nat) ^ 52" using s by simp
    then have bits: "s * 2 ^ 52 + P < inf_bits" using P53 by (simp add: inf_bits_def)
    have ru: "round_units N 1 = s * 2 ^ 52 + P"
      using ru_exact_high [OF P52 P53, of 1 s] bits by (simp add: N)
    have "mbits (pack sg (s * 2 ^ 52 + P)) = s * 2 ^ 52 + P"
      using bits inf_bits_less by (intro mbits_pack) linarith
    then have "mag (pack sg (s * 2 ^ 52 + P)) = P * 2 ^ s"
      using P52 P53 by (intro mag_mbits) simp_all
    then show ?thesis using bits unfolding ru by (simp add: N [symmetric])
  qed
  then show "round_units N 1 < inf_bits" and "mag (pack sg (round_units N 1)) = N"
    by simp_all
qed

section \<open>Small integers, infinities and the order\<close>

lemma unit_scale_pos: "0 < unit_scale"
  by (simp add: unit_scale_def)

lemma d_of_int_small:
  assumes "\<bar>i\<bar> < 2 ^ 53"
  shows "is_finite (d_of_int i)" and "sign_bit (d_of_int i) = (i < 0)"
    and "mag (d_of_int i) = nat \<bar>i\<bar> * unit_scale"
proof -
  define N where "N = nat \<bar>i\<bar> * unit_scale"
  have "nat \<bar>i\<bar> < 2 ^ 53" using assms by (simp add: nat_less_iff)
  then have "N < 2 ^ 53 * 2 ^ 1074" unfolding N_def unit_scale_def by (rule mult_strict_right_mono) simp
  also have "\<dots> = 2 ^ 1127" by (simp add: power_add [symmetric])
  finally have N1: "N < 2 ^ 1127" .
  have "(2::nat) ^ 1127 \<le> 2 ^ 2098" by (intro power_increasing) simp_all
  then have N2: "N < 2 ^ 2098" using N1 by linarith
  have "bit_length N \<le> 1127" using N1 by (rule bit_length_le)
  then have "bit_length N - 53 \<le> 1074" by simp
  then have "(2::nat) ^ (bit_length N - 53) dvd 2 ^ 1074" by (rule le_imp_power_dvd)
  then have dvd: "2 ^ (bit_length N - 53) dvd N" unfolding N_def unit_scale_def by (rule dvd_mult)
  have d: "d_of_int i = pack (i < 0) (round_units N 1)" by (simp add: d_of_int_def N_def)
  have fin: "round_units N 1 < inf_bits" by (rule ru_exact_dvd(1) [OF N2 dvd])
  show "is_finite (d_of_int i)" unfolding d using fin by (rule finite_pack)
  show "sign_bit (d_of_int i) = (i < 0)"
    unfolding d using fin inf_bits_less by (intro sign_bit_pack) linarith
  show "mag (d_of_int i) = nat \<bar>i\<bar> * unit_scale"
    unfolding d using ru_exact_dvd(2) [OF N2 dvd] by (simp add: N_def)
qed

lemma sval_d_of_int: "\<bar>i\<bar> < 2 ^ 53 \<Longrightarrow> sval (d_of_int i) = i * int unit_scale"
  by (simp add: sval_def d_of_int_small)

lemma d_less_d_of_int:
  assumes "\<bar>i\<bar> < 2 ^ 53" and "\<bar>j\<bar> < 2 ^ 53"
  shows "d_less (d_of_int i) (d_of_int j) = (i < j)"
  using assms d_of_int_small(1) [THEN finite_not_nan_inf] unit_scale_pos
  by (simp add: d_less_def sval_d_of_int)

lemma d_equal_d_of_int:
  assumes "\<bar>i\<bar> < 2 ^ 53" and "\<bar>j\<bar> < 2 ^ 53"
  shows "d_equal (d_of_int i) (d_of_int j) = (i = j)"
  using assms d_of_int_small(1) [THEN finite_not_nan_inf] unit_scale_pos
  by (simp add: d_equal_def sval_d_of_int)

lemma infinity_facts: "is_inf infinity" "\<not> is_nan infinity" "\<not> sign_bit infinity"
  by (simp_all add: decode_defs infinity_def)

lemma neg_infinity_facts:
  "d_neg infinity = 0xFFF0000000000000"
  "is_inf (d_neg infinity)" "\<not> is_nan (d_neg infinity)" "sign_bit (d_neg infinity)"
proof -
  show 1: "d_neg infinity = 0xFFF0000000000000"
    by (simp add: d_neg_def decode_defs infinity_def pack_def)
  show "is_inf (d_neg infinity)" "\<not> is_nan (d_neg infinity)" "sign_bit (d_neg infinity)"
    unfolding 1 by (simp_all add: decode_defs)
qed

lemma infP_neq_infN: "infP U \<noteq> infN U"
  by (simp add: infP_def infN_def Scalar_def neg_infinity_facts(1)) (simp add: infinity_def)

lemma is_inf_eq: "is_inf a \<Longrightarrow> a = pack (sign_bit a) inf_bits"
proof -
  assume "is_inf a"
  then have "mbits a = inf_bits"
    using mbits_decompose [of a] by (simp add: is_inf_def inf_bits_def)
  then show ?thesis using pack_decode [of a] by simp
qed

lemma is_inf_unique: "is_inf a \<Longrightarrow> is_inf b \<Longrightarrow> sign_bit a = sign_bit b \<Longrightarrow> a = b"
  using is_inf_eq [of a] is_inf_eq [of b] by simp

text \<open>For values that are not NaN, the order is total.\<close>

lemma d_less_total: "\<not> is_nan a \<Longrightarrow> \<not> is_nan b \<Longrightarrow> d_less a b \<or> d_less_eq b a"
  using is_inf_unique [of a b]
  by (auto simp: d_less_eq_def d_less_def d_equal_def sval_def split: if_splits)

lemma d_less_asym: "d_less a b \<Longrightarrow> \<not> d_less_eq b a"
  by (auto simp: d_less_eq_def d_less_def d_equal_def split: if_splits)

section \<open>Infinity by sign\<close>

text \<open>
  Claim C5 as stated fails at a NaN: \<open>dir \<ge> 0\<close> is false for it, so the claim demands
  \<^verbatim>\<open>infN()\<close>, but the test \<^verbatim>\<open>dir.value < 0\<close> is false as well and the code returns
  \<^verbatim>\<open>infP()\<close>, which differs from \<^verbatim>\<open>infN()\<close>.
\<close>

theorem inf_dir_nan_counterexample:
  "inf_dir dimensionless (nan dimensionless) = Inr (infP dimensionless)
   \<and> op_greater_eq (nan dimensionless) (zero dimensionless) = Inr False
   \<and> infP dimensionless \<noteq> infN dimensionless"
  using nan_operand [of "nan dimensionless" "zero dimensionless"] infP_neq_infN [of dimensionless]
  by (simp add: inf_dir_def accepts_def nan_def zero_def Scalar_def nan_quiet_NaN d_less_nan)

text \<open>
  Claim C5, amended. For every Unit \<open>U\<close> and every \<^verbatim>\<open>Scalar<U>\<close> value \<open>dir\<close>,
  \<^verbatim>\<open>inf(dir)\<close> returns \<^verbatim>\<open>infN()\<close> if \<open>dir < 0\<close> and \<^verbatim>\<open>infP()\<close> otherwise: for every
  \<open>dir \<ge> 0\<close>, both zeros included, and also for a NaN, which is neither below zero nor
  at least zero. For a \<open>dir\<close> that is not a NaN the result is \<^verbatim>\<open>infN()\<close> exactly when
  \<open>dir \<ge> 0\<close> fails. In particular \<^verbatim>\<open>inf(Scalar<U>(-5))\<close> is \<^verbatim>\<open>infN()\<close>, and
  \<^verbatim>\<open>inf(Scalar<U>(0))\<close>, \<^verbatim>\<open>inf(Scalar<U>(-0.0))\<close> and \<^verbatim>\<open>inf(Scalar<U>(5))\<close> are
  \<^verbatim>\<open>infP()\<close>.
\<close>

theorem inf_dir_sign:
  assumes "tag dir = U"
  shows "inf_dir U dir = Inr (if d_less (value dir) (d_of_int 0) then infN U else infP U)
    \<and> (d_greater_eq (value dir) (d_of_int 0) \<longrightarrow> inf_dir U dir = Inr (infP U))
    \<and> (is_nan (value dir) \<longrightarrow> inf_dir U dir = Inr (infP U))
    \<and> (\<not> is_nan (value dir) \<and> \<not> d_greater_eq (value dir) (d_of_int 0) \<longrightarrow>
          inf_dir U dir = Inr (infN U))
    \<and> inf_dir U (Scalar U (d_of_int (- 5))) = Inr (infN U)
    \<and> inf_dir U (Scalar U (d_of_int 0)) = Inr (infP U)
    \<and> inf_dir U (Scalar U (d_neg (d_of_int 0))) = Inr (infP U)
    \<and> inf_dir U (Scalar U (d_of_int 5)) = Inr (infP U)"
proof -
  have 1: "inf_dir U dir = Inr (if d_less (value dir) (d_of_int 0) then infN U else infP U)"
    using assms by (simp add: inf_dir_def accepts_def)
  have 2: "d_greater_eq (value dir) (d_of_int 0) \<longrightarrow> inf_dir U dir = Inr (infP U)"
    using d_less_asym [of "value dir" "d_of_int 0"] by (auto simp: 1 d_greater_eq_def)
  have 3: "is_nan (value dir) \<longrightarrow> inf_dir U dir = Inr (infP U)"
    by (simp add: 1 d_less_nan)
  have 4: "\<not> is_nan (value dir) \<and> \<not> d_greater_eq (value dir) (d_of_int 0) \<longrightarrow>
      inf_dir U dir = Inr (infN U)"
    using d_less_total [of "value dir" "d_of_int 0"]
    by (auto simp: 1 d_greater_eq_def d_of_int_0 zero_facts)
  have 5: "inf_dir U (Scalar U (d_of_int (- 5))) = Inr (infN U)"
    using d_less_d_of_int [of "- 5" 0] by (simp add: inf_dir_def accepts_def Scalar_def)
  have 6: "inf_dir U (Scalar U (d_of_int 0)) = Inr (infP U)"
    using d_less_d_of_int [of 0 0] by (simp add: inf_dir_def accepts_def Scalar_def)
  have 7: "inf_dir U (Scalar U (d_neg (d_of_int 0))) = Inr (infP U)"
    by (simp add: inf_dir_def accepts_def Scalar_def d_of_int_0 d_neg_0 d_less_def
        neg_zero_facts zero_facts)
  have 8: "inf_dir U (Scalar U (d_of_int 5)) = Inr (infP U)"
    using d_less_d_of_int [of 5 0] by (simp add: inf_dir_def accepts_def Scalar_def)
  from 1 2 3 4 5 6 7 8 show ?thesis by blast
qed

theorem inf_dir_sign_witness:
  "inf_dir dimensionless (Scalar dimensionless (d_of_int (- 5))) = Inr (infN dimensionless)
   \<and> inf_dir dimensionless (Scalar dimensionless (d_of_int 0)) = Inr (infP dimensionless)
   \<and> inf_dir dimensionless (Scalar dimensionless (d_of_int 5)) = Inr (infP dimensionless)
   \<and> inf_dir dimensionless (Scalar dimensionless quiet_NaN) = Inr (infP dimensionless)"
proof -
  have t: "tag (Scalar dimensionless quiet_NaN) = dimensionless" by (simp add: Scalar_def)
  have n: "is_nan (value (Scalar dimensionless quiet_NaN))"
    by (simp add: Scalar_def nan_quiet_NaN)
  show ?thesis using inf_dir_sign [OF t] n by blast
qed

section \<open>Division by itself\<close>

lemma mag_zero: "is_zero a \<Longrightarrow> mag a = 0"
  by (simp add: is_zero_def mag_def expo_def fraction_def)

lemma SIUnitSub_self: "SIUnitSub U U = dimensionless"
  by (cases U) (simp add: dimensionless_def)

lemma SIUnitAdd_dimensionless: "SIUnitAdd U dimensionless = U"
  by (cases U) (simp add: dimensionless_def)

lemma round_units_one:
  assumes "0 < den"
  shows "round_units (den * unit_scale) den = 0x3FF0000000000000"
proof -
  have "unit_scale = 2 ^ 52 * 2 ^ 1022"
    unfolding unit_scale_def by (simp add: power_add [symmetric])
  then have e: "den * unit_scale = 2 ^ 52 * 2 ^ 1022 * den" by (simp only: mult.commute)
  have r: "round_units (2 ^ 52 * 2 ^ 1022 * den) den = min inf_bits (1022 * 2 ^ 52 + 2 ^ 52)"
    using assms by (intro ru_exact_high) simp_all
  show ?thesis unfolding e r by (simp add: inf_bits_def)
qed

lemma pack_one: "pack False 0x3FF0000000000000 = 0x3FF0000000000000"
  by (simp add: pack_def)

lemma d_of_int_1: "d_of_int 1 = 0x3FF0000000000000"
proof -
  have "d_of_int 1 = pack False (round_units (1 * unit_scale) 1)"
    by (simp add: d_of_int_def)
  moreover have "round_units (1 * unit_scale) 1 = 0x3FF0000000000000"
    by (rule round_units_one) simp
  ultimately show ?thesis by (simp only: pack_one)
qed

lemma d_div_self:
  assumes "is_finite a" and "\<not> is_zero a"
  shows "d_div a a = 0x3FF0000000000000"
proof -
  have "\<not> is_nan a" "\<not> is_inf a" using assms(1) finite_not_nan_inf by auto
  then have "d_div a a = pack False (round_units (mag a * unit_scale) (mag a))"
    using assms(2) by (simp add: d_div_def)
  moreover have "0 < mag a" using assms by (rule mag_pos)
  ultimately show ?thesis by (simp only: round_units_one pack_one)
qed

text \<open>
  Claim C3 as stated fails at an infinite magnitude: \<^verbatim>\<open>infP()\<close> is not zero, and
  dividing it by itself gives a NaN, which is not equal to one.
\<close>

theorem divide_inf_counterexample:
  "op_divide (infP dimensionless) (infP dimensionless) = Inr (nan dimensionless)
   \<and> \<not> isZero (infP dimensionless)
   \<and> op_equal (nan dimensionless) (Scalar dimensionless (d_of_int 1)) = Inr False"
proof -
  have "d_div infinity infinity = quiet_NaN"
    by (simp add: d_div_def infinity_facts)
  moreover have "\<not> d_equal infinity (d_of_int 0)"
    by (simp add: d_equal_def d_of_int_0 infinity_facts zero_facts) (simp add: infinity_def)
  ultimately show ?thesis
    using nan_operand [of "nan dimensionless" "Scalar dimensionless (d_of_int 1)"]
    by (simp add: op_divide_def accepts_def infP_def nan_def Scalar_def SIUnitSub_self
        isZero_def nan_quiet_NaN)
qed

text \<open>
  Claim C3, amended. For every Unit \<open>U\<close> and every finite double \<open>a\<close> that is not
  zero, \<^verbatim>\<open>Scalar<U>(a) / Scalar<U>(a)\<close> is dimensionless and its magnitude is exactly
  one.
\<close>

theorem divide_self:
  assumes "is_finite a" and "\<not> is_zero a"
  shows "op_divide (Scalar U a) (Scalar U a) = Inr (Scalar dimensionless (d_of_int 1))
    \<and> d_of_int 1 = 0x3FF0000000000000"
  using d_div_self [OF assms]
  by (simp add: op_divide_def accepts_def Scalar_def SIUnitSub_self d_of_int_1)

theorem divide_self_witness:
  "op_divide (Scalar dimensionless (d_of_int 5)) (Scalar dimensionless (d_of_int 5)) =
     Inr (Scalar dimensionless (d_of_int 1))"
proof -
  have f: "is_finite (d_of_int 5)" by (rule d_of_int_small) simp
  have "mag (d_of_int 5) = 5 * unit_scale" using d_of_int_small(3) [of 5] by simp
  then have z: "\<not> is_zero (d_of_int 5)"
    using mag_zero [of "d_of_int 5"] unit_scale_pos by auto
  show ?thesis using divide_self [OF f z] by simp
qed

section \<open>Multiplication\<close>

lemma d_mul_finite:
  assumes "is_finite a" and "is_finite b"
  shows "d_mul a b = pack (sign_bit a \<noteq> sign_bit b) (round_units (mag a * mag b) (unit_scale))"
  using assms [THEN finite_not_nan_inf] by (simp add: d_mul_def)

lemma ru_scale: "0 < k \<Longrightarrow> round_units (k * num) (k * den) = round_units num den"
  using rhe_scale [of k num "den * 2 ^ (bit_length (num div den) - 53)"]
  by (simp add: round_units_def mult.assoc)

lemma d_mul_d_of_int:
  assumes "\<bar>i\<bar> < 2 ^ 53" and "\<bar>j\<bar> < 2 ^ 53" and "\<bar>i * j\<bar> < 2 ^ 53" and "i * j \<noteq> 0"
  shows "d_mul (d_of_int i) (d_of_int j) = d_of_int (i * j)"
proof -
  have "d_mul (d_of_int i) (d_of_int j) =
      pack ((i < 0) \<noteq> (j < 0)) (round_units (nat \<bar>i\<bar> * unit_scale * (nat \<bar>j\<bar> * unit_scale)) unit_scale)"
    using assms(1,2) by (simp add: d_mul_finite d_of_int_small)
  moreover have "nat \<bar>i\<bar> * unit_scale * (nat \<bar>j\<bar> * unit_scale) = unit_scale * (nat \<bar>i * j\<bar> * unit_scale)"
    by (simp add: abs_mult nat_mult_distrib)
  moreover have "round_units (unit_scale * (nat \<bar>i * j\<bar> * unit_scale)) (unit_scale * 1) =
      round_units (nat \<bar>i * j\<bar> * unit_scale) 1"
    using unit_scale_pos by (rule ru_scale)
  moreover have "((i < 0) \<noteq> (j < 0)) = (i * j < 0)"
    using assms(4) by (auto simp: mult_less_0_iff) 
  ultimately show ?thesis by (simp add: d_of_int_def)
qed

section \<open>Units of the operands\<close>

text \<open>
  Claim C1 as stated fails in its last part: \<^verbatim>\<open>operator *=\<close> is neither \<^verbatim>\<open>*\<close> nor
  \<^verbatim>\<open>/\<close>, and it accepts a left operand of the Unit of length with a right operand that
  is dimensionless, two different Units.
\<close>

theorem times_assign_counterexample:
  "op_times_assign (Scalar (Unit 1 0 0 0 0 0 0) (d_of_int 4)) (Scalar dimensionless (d_of_int 2)) =
     Inr (Scalar (Unit 1 0 0 0 0 0 0) (d_of_int 8))
   \<and> Unit 1 0 0 0 0 0 0 \<noteq> dimensionless
   \<and> accepts TimesAssign (Unit 1 0 0 0 0 0 0) dimensionless
   \<and> TimesAssign \<noteq> Times \<and> TimesAssign \<noteq> Divide"
proof -
  have "d_mul (d_of_int 4) (d_of_int 2) = d_of_int (4 * 2)"
    by (rule d_mul_d_of_int) simp_all
  then show ?thesis
    by (simp add: op_times_assign_def op_times_def assign_def accepts_def Scalar_def
        dimensionless_def)
qed

lemma accepts_mixed:
  assumes "U1 \<noteq> U2" and "accepts f U1 U2"
  shows "f = Times \<or> f = Divide \<or> ((f = TimesAssign \<or> f = DivideAssign) \<and> U2 = dimensionless)"
  using assms by (cases f) (auto simp: accepts_def)

text \<open>
  Claim C1, amended. For every pair of distinct Units \<open>U1 \<noteq> U2\<close>, an addition,
  subtraction, comparison or modulo between a \<^verbatim>\<open>Scalar<U1>\<close> and a \<^verbatim>\<open>Scalar<U2>\<close>
  (and likewise \<^verbatim>\<open>+=\<close> and \<^verbatim>\<open>-=\<close>) is rejected at build time and never executes,
  while \<^verbatim>\<open>*\<close> and \<^verbatim>\<open>/\<close> are accepted. The only member operations that accept two
  different Units are \<^verbatim>\<open>*\<close> and \<^verbatim>\<open>/\<close>, for any pair, and \<^verbatim>\<open>*=\<close> and \<^verbatim>\<open>/=\<close>, whose
  right operand has to be dimensionless.
\<close>

theorem unit_soundness:
  assumes "U1 \<noteq> U2"
  shows "op_plus (Scalar U1 a) (Scalar U2 b) = Inl UnitMismatch
    \<and> op_minus (Scalar U1 a) (Scalar U2 b) = Inl UnitMismatch
    \<and> op_less (Scalar U1 a) (Scalar U2 b) = Inl UnitMismatch
    \<and> op_greater (Scalar U1 a) (Scalar U2 b) = Inl UnitMismatch
    \<and> op_less_eq (Scalar U1 a) (Scalar U2 b) = Inl UnitMismatch
    \<and> op_greater_eq (Scalar U1 a) (Scalar U2 b) = Inl UnitMismatch
    \<and> op_equal (Scalar U1 a) (Scalar U2 b) = Inl UnitMismatch
    \<and> op_not_equal (Scalar U1 a) (Scalar U2 b) = Inl UnitMismatch
    \<and> mod_scalar (Scalar U1 a) (Scalar U2 b) = Inl UnitMismatch
    \<and> op_plus_assign (Scalar U1 a) (Scalar U2 b) = Inl UnitMismatch
    \<and> op_minus_assign (Scalar U1 a) (Scalar U2 b) = Inl UnitMismatch
    \<and> op_times (Scalar U1 a) (Scalar U2 b) = Inr (Scalar (SIUnitAdd U1 U2) (d_mul a b))
    \<and> op_divide (Scalar U1 a) (Scalar U2 b) = Inr (Scalar (SIUnitSub U1 U2) (d_div a b))
    \<and> (\<forall>f. accepts f U1 U2 \<longrightarrow>
          f = Times \<or> f = Divide \<or> ((f = TimesAssign \<or> f = DivideAssign) \<and> U2 = dimensionless))"
proof -
  have "\<forall>f. accepts f U1 U2 \<longrightarrow>
      f = Times \<or> f = Divide \<or> ((f = TimesAssign \<or> f = DivideAssign) \<and> U2 = dimensionless)"
    using accepts_mixed [OF assms] by blast
  moreover have "U2 \<noteq> U1" using assms by auto
  ultimately show ?thesis
    by (simp add: op_plus_def op_minus_def op_less_def op_greater_def op_less_eq_def
        op_greater_eq_def op_equal_def op_not_equal_def mod_scalar_def op_plus_assign_def
        op_minus_assign_def op_times_def op_divide_def accepts_def Scalar_def)
qed

theorem unit_soundness_witness:
  "op_plus (Scalar (Unit 1 0 0 0 0 0 0) 0) (Scalar (Unit 0 0 1 0 0 0 0) 0) = Inl UnitMismatch
   \<and> op_less (Scalar (Unit 1 0 0 0 0 0 0) 0) (Scalar (Unit 0 0 1 0 0 0 0) 0) = Inl UnitMismatch
   \<and> mod_scalar (Scalar (Unit 1 0 0 0 0 0 0) 0) (Scalar (Unit 0 0 1 0 0 0 0) 0) = Inl UnitMismatch
   \<and> op_times (Scalar (Unit 1 0 0 0 0 0 0) 0) (Scalar (Unit 0 0 1 0 0 0 0) 0) =
       Inr (Scalar (Unit 1 0 1 0 0 0 0) (d_mul 0 0))"
proof -
  have h: "Unit 1 0 0 0 0 0 0 \<noteq> Unit 0 0 1 0 0 0 0" by simp
  show ?thesis using unit_soundness [OF h, of 0 0] by simp
qed

section \<open>The constant pi\<close>

lemma pi_literal:
  "d_of_literal 31415926535897932384626433832795028841971693993751 (10 ^ 49) = 0x400921FB54442D18"
proof -
  define L :: nat where "L = 31415926535897932384626433832795028841971693993751"
  have us: "unit_scale = 2 ^ 1023 * 2 ^ 51"
    unfolding unit_scale_def by (simp add: power_add [symmetric])
  have num: "L * unit_scale = 2 ^ 1023 * (L * 2 ^ 51)"
    unfolding us by (simp only: mult.assoc mult.left_commute)
  have lo: "2 ^ (52 + 1023) * 10 ^ 49 \<le> 2 ^ 1023 * (L * 2 ^ 51)"
  proof -
    have "(2::nat) ^ 52 * 10 ^ 49 \<le> L * 2 ^ 51" by (simp add: L_def)
    then have "2 ^ 1023 * ((2::nat) ^ 52 * 10 ^ 49) \<le> 2 ^ 1023 * (L * 2 ^ 51)"
      by (rule mult_le_mono2)
    then show ?thesis by (simp only: power_add mult.assoc mult.left_commute mult.commute)
  qed
  have hi: "2 ^ 1023 * (L * 2 ^ 51) < 2 ^ (53 + 1023) * 10 ^ 49"
  proof -
    have "L * 2 ^ 51 < (2::nat) ^ 53 * 10 ^ 49" by (simp add: L_def)
    then have "2 ^ 1023 * (L * 2 ^ 51) < 2 ^ 1023 * ((2::nat) ^ 53 * 10 ^ 49)"
      by (intro mult_strict_left_mono) simp_all
    then show ?thesis by (simp only: power_add mult.assoc mult.left_commute mult.commute)
  qed
  have "round_units (2 ^ 1023 * (L * 2 ^ 51)) (10 ^ 49) =
      min inf_bits (1023 * 2 ^ 52 + round_half_even (2 ^ 1023 * (L * 2 ^ 51)) (10 ^ 49 * 2 ^ 1023))"
    using lo hi by (intro ru_high) simp_all
  moreover have "round_half_even (2 ^ 1023 * (L * 2 ^ 51)) (2 ^ 1023 * 10 ^ 49) =
      round_half_even (L * 2 ^ 51) (10 ^ 49)"
    by (rule rhe_scale) simp
  moreover have "round_half_even (L * 2 ^ 51) (10 ^ 49) = 7074237752028440"
    by (simp add: round_half_even_def L_def)
  moreover have "(10::nat) ^ 49 * 2 ^ 1023 = 2 ^ 1023 * 10 ^ 49" by (rule mult.commute)
  ultimately have "round_units (L * unit_scale) (10 ^ 49) = min inf_bits (1023 * 2 ^ 52 + 7074237752028440)"
    by (simp only: num)
  then have "round_units (L * unit_scale) (10 ^ 49) = 0x400921FB54442D18"
    by (simp add: inf_bits_def)
  then show ?thesis
    unfolding d_of_literal_def L_def [symmetric] by (simp add: pack_def)
qed

lemma pi_scalar_eq: "pi_scalar U = Scalar U 0x400921FB54442D18"
  unfolding pi_scalar_def pi_literal by (rule refl)

lemma pi_rat: "d_to_rat 0x400921FB54442D18 = 7074237752028440 / 2 ^ 51"
proof -
  define e :: nat where "e = 2 ^ 1023"
  have e: "0 < e" by (simp add: e_def)
  have m: "mbits (0x400921FB54442D18 :: double) = 1023 * 2 ^ 52 + 7074237752028440"
    by (simp add: mbits_def)
  have "mag 0x400921FB54442D18 = 7074237752028440 * 2 ^ 1023"
    using m by (rule mag_mbits) simp_all
  then have "mag 0x400921FB54442D18 = 7074237752028440 * e"
    by (simp only: e_def)
  moreover have "\<not> sign_bit 0x400921FB54442D18" by (simp add: sign_bit_def)
  ultimately have sv: "sval 0x400921FB54442D18 = int (7074237752028440 * e)"
    by (simp only: sval_def if_False)
  have "unit_scale = 2 ^ 1023 * 2 ^ 51"
    unfolding unit_scale_def by (simp add: power_add [symmetric])
  then have us: "unit_scale = e * 2 ^ 51" by (simp only: e_def)
  show ?thesis
    unfolding d_to_rat_def sv us using e by simp
qed

text \<open>
  Claim C8 as stated fails in its first part: \<^verbatim>\<open>pi()\<close> is a static member of every
  \<^verbatim>\<open>Scalar<U1>\<close>, so it is available at the Unit of length, which is not dimensionless.
\<close>

theorem pi_length_counterexample:
  "tag (pi_scalar (Unit 1 0 0 0 0 0 0)) = Unit 1 0 0 0 0 0 0
   \<and> value (pi_scalar (Unit 1 0 0 0 0 0 0)) = 0x400921FB54442D18
   \<and> Unit 1 0 0 0 0 0 0 \<noteq> dimensionless"
  by (simp add: pi_scalar_eq Scalar_def dimensionless_def)

text \<open>
  Claim C8, amended. The named constructor \<^verbatim>\<open>pi()\<close> is available at every Unit \<open>U\<close>
  and returns a \<^verbatim>\<open>Scalar<U>\<close> whose magnitude is the double nearest to the literal, the
  bit pattern \<open>0x400921FB54442D18\<close>, which is within \<open>2 ^ -52\<close> of
  3.14159265358979323846.
\<close>

theorem pi_value:
  "pi_scalar U = Scalar U 0x400921FB54442D18
   \<and> tag (pi_scalar U) = U
   \<and> \<bar>d_to_rat (value (pi_scalar U)) - 314159265358979323846 / 10 ^ 20\<bar> < 1 / 2 ^ 52"
proof -
  have "\<bar>(7074237752028440 / 2 ^ 51 :: rat) - 314159265358979323846 / 10 ^ 20\<bar> < 1 / 2 ^ 52"
    by simp
  then show ?thesis by (simp add: pi_scalar_eq Scalar_def pi_rat)
qed

section \<open>The remainder\<close>

lemma finite_form:
  assumes "is_finite w"
  obtains P s where "mag w = P * 2 ^ s" and "P < 2 ^ 53" and "s \<le> 2045"
    and "s = 0 \<or> 2 ^ 52 \<le> P" and "mbits w = s * 2 ^ 52 + P"
proof -
  define s where "s = expo w - 1"
  define P where "P = (if expo w = 0 then fraction w else 2 ^ 52 + fraction w)"
  have m: "mbits w = s * 2 ^ 52 + P"
    using mbits_decompose [of w] by (simp add: s_def P_def)
  have P: "P < 2 ^ 53" using fraction_less [of w] by (simp add: P_def)
  have s0: "s = 0 \<or> 2 ^ 52 \<le> P" by (auto simp: s_def P_def)
  have s: "s \<le> 2045" using assms by (simp add: is_finite_def s_def)
  have "mag w = P * 2 ^ s" using m _ s0 by (rule mag_mbits) (use P in simp)
  then show ?thesis using that P s s0 m by blast
qed

lemma rep_criterion:
  assumes "2 ^ t dvd n" and "n < 2 ^ (53 + t)"
  shows "2 ^ (bit_length n - 53) dvd n"
proof -
  have "bit_length n \<le> 53 + t" using assms(2) by (rule bit_length_le)
  then have "bit_length n - 53 \<le> t" by simp
  then have "(2::nat) ^ (bit_length n - 53) dvd 2 ^ t" by (rule le_imp_power_dvd)
  then show ?thesis using assms(1) by (rule dvd_trans)
qed

lemma mag_less: "is_finite w \<Longrightarrow> mag w < 2 ^ 2098"
proof -
  assume "is_finite w"
  then obtain P s where w: "mag w = P * 2 ^ s" "P < 2 ^ 53" "s \<le> 2045"
    by (rule finite_form)
  have "(2::nat) ^ s \<le> 2 ^ 2045" using w(3) by (intro power_increasing) simp_all
  then have "2 ^ 53 * (2::nat) ^ s \<le> 2 ^ 53 * 2 ^ 2045" by (rule mult_le_mono2)
  moreover have "P * 2 ^ s < 2 ^ 53 * 2 ^ s" using w(2) by simp
  moreover have "2 ^ 53 * 2 ^ 2045 = (2::nat) ^ 2098" by (simp add: power_add [symmetric])
  ultimately show ?thesis unfolding w(1) by linarith
qed

text \<open>The remainder of two finite doubles is a double.\<close>

lemma mod_representable:
  assumes "is_finite x" and "is_finite y" and "0 < mag y"
  shows "2 ^ (bit_length (mag x mod mag y) - 53) dvd mag x mod mag y"
proof -
  obtain Px sx where x: "mag x = Px * 2 ^ sx" "Px < 2 ^ 53"
    using assms(1) by (rule finite_form)
  obtain Py sy where y: "mag y = Py * 2 ^ sy" "Py < 2 ^ 53" "sy = 0 \<or> 2 ^ 52 \<le> Py"
    using assms(2) by (rule finite_form)
  show ?thesis
  proof (cases "sy \<le> sx")
    case True
    then have "(2::nat) ^ sy dvd 2 ^ sx" by (rule le_imp_power_dvd)
    then have "2 ^ sy dvd mag x" by (simp add: x(1))
    moreover have "2 ^ sy dvd mag y" by (simp add: y(1))
    ultimately have "2 ^ sy dvd mag x mod mag y" by (simp add: dvd_mod)
    moreover have "mag x mod mag y < mag y" using assms(3) by simp
    then have "mag x mod mag y < 2 ^ 53 * 2 ^ sy"
      using y(2) by (simp add: y(1)) (meson less_trans mult_less_cancel2 zero_less_numeral zero_less_power)
    then have "mag x mod mag y < 2 ^ (53 + sy)" by (simp add: power_add)
    ultimately show ?thesis by (rule rep_criterion)
  next
    case False
    then have "Suc sx \<le> sy" by simp
    then have "(2::nat) ^ Suc sx \<le> 2 ^ sy" by (intro power_increasing) simp_all
    moreover have "2 ^ 52 \<le> Py" using False y(3) by auto
    ultimately have "2 ^ 52 * (2::nat) ^ Suc sx \<le> Py * 2 ^ sy" by (intro mult_le_mono)
    moreover have "2 ^ 52 * (2::nat) ^ Suc sx = 2 ^ 53 * 2 ^ sx" by simp
    moreover have "Px * 2 ^ sx < 2 ^ 53 * 2 ^ sx" using x(2) by simp
    ultimately have "mag x < mag y" unfolding x(1) y(1) by linarith
    then have "mag x mod mag y = mag x" by simp
    moreover have "2 ^ sx dvd mag x" by (simp add: x(1))
    moreover have "mag x < 2 ^ (53 + sx)" using x(2) by (simp add: x(1) power_add)
    ultimately show ?thesis using rep_criterion [of sx "mag x"] by simp
  qed
qed

lemma d_fmod_finite:
  assumes "is_finite x" and "is_finite y" and "\<not> is_zero y"
  shows "d_fmod x y = pack (sign_bit x) (round_units (mag x mod mag y) 1)"
    and "is_finite (d_fmod x y)"
    and "sign_bit (d_fmod x y) = sign_bit x"
    and "mag (d_fmod x y) = mag x mod mag y"
proof -
  have pos: "0 < mag y" using assms(2,3) by (rule mag_pos)
  show 1: "d_fmod x y = pack (sign_bit x) (round_units (mag x mod mag y) 1)"
    using assms finite_not_nan_inf by (simp add: d_fmod_def)
  have "mag x mod mag y < mag y" using pos by simp
  then have N: "mag x mod mag y < 2 ^ 2098" using mag_less [OF assms(2)] by linarith
  have dvd: "2 ^ (bit_length (mag x mod mag y) - 53) dvd mag x mod mag y"
    using assms(1,2) pos by (rule mod_representable)
  have fin: "round_units (mag x mod mag y) 1 < inf_bits" by (rule ru_exact_dvd(1) [OF N dvd])
  show "is_finite (d_fmod x y)" unfolding 1 using fin by (rule finite_pack)
  show "sign_bit (d_fmod x y) = sign_bit x"
    unfolding 1 using fin inf_bits_less by (intro sign_bit_pack) linarith
  show "mag (d_fmod x y) = mag x mod mag y"
    unfolding 1 by (rule ru_exact_dvd(2) [OF N dvd])
qed

lemma d_fmod_sign:
  assumes "\<not> is_nan (d_fmod x y)"
  shows "sign_bit (d_fmod x y) = sign_bit x"
proof (cases "is_nan x \<or> is_nan y \<or> is_inf x \<or> is_zero y")
  case True
  then have "d_fmod x y = quiet_NaN" by (simp add: d_fmod_def)
  then show ?thesis using assms nan_quiet_NaN by simp
next
  case False
  show ?thesis
  proof (cases "is_inf y")
    case True
    then show ?thesis using False by (simp add: d_fmod_def)
  next
    case inf: False
    have "round_units (mag x mod mag y) 1 < 2 ^ 63"
      using round_units_le [of "mag x mod mag y" 1] inf_bits_less by linarith
    then show ?thesis using False inf by (simp add: d_fmod_def sign_bit_pack)
  qed
qed

lemma not_zero_d_of_int: "\<bar>i\<bar> < 2 ^ 53 \<Longrightarrow> i \<noteq> 0 \<Longrightarrow> \<not> is_zero (d_of_int i)"
  using mag_zero [of "d_of_int i"] unit_scale_pos by (auto simp: d_of_int_small(3))

lemma d_fmod_d_of_int:
  assumes "\<bar>i\<bar> < 2 ^ 53" and "\<bar>j\<bar> < 2 ^ 53" and "j \<noteq> 0"
  shows "d_fmod (d_of_int i) (d_of_int j) =
    pack (i < 0) (round_units (nat (\<bar>i\<bar> mod \<bar>j\<bar>) * unit_scale) 1)"
proof -
  have "nat (\<bar>i\<bar> mod \<bar>j\<bar>) = nat \<bar>i\<bar> mod nat \<bar>j\<bar>" by (simp add: nat_mod_distrib)
  then have "nat (\<bar>i\<bar> mod \<bar>j\<bar>) * unit_scale = (nat \<bar>i\<bar> * unit_scale) mod (nat \<bar>j\<bar> * unit_scale)"
    by (simp only: mult_mod_left)
  moreover have "d_fmod (d_of_int i) (d_of_int j) =
      pack (sign_bit (d_of_int i)) (round_units (mag (d_of_int i) mod mag (d_of_int j)) 1)"
    using d_of_int_small(1) [OF assms(1)] d_of_int_small(1) [OF assms(2)]
      not_zero_d_of_int [OF assms(2,3)]
    by (rule d_fmod_finite(1))
  ultimately show ?thesis
    by (simp only: d_of_int_small(2,3) [OF assms(1)] d_of_int_small(3) [OF assms(2)])
qed

section \<open>Modulo\<close>

text \<open>
  Claim C7. For every Unit \<open>U\<close>, \<^verbatim>\<open>mod(divisor)\<close> on Scalars of one Unit returns a
  Scalar of the same Unit whose magnitude is the floating-point remainder \<^verbatim>\<open>fmod\<close> of
  the two magnitudes. Whenever the result is not a NaN its sign is the sign of the
  dividend; for finite operands and a divisor other than zero it is finite and its
  absolute value is exactly the remainder of the absolute values. In particular
  \<^verbatim>\<open>Scalar<U>(-7).mod(Scalar<U>(3))\<close> is \<open>-1\<close>, and not \<open>2\<close>.
\<close>

theorem mod_sign_follows_dividend:
  assumes "tag divisor = tag x"
  shows "mod_scalar x divisor = Inr (Scalar (tag x) (d_fmod (value x) (value divisor)))
    \<and> (\<not> is_nan (d_fmod (value x) (value divisor)) \<longrightarrow>
          sign_bit (d_fmod (value x) (value divisor)) = sign_bit (value x))
    \<and> (is_finite (value x) \<and> is_finite (value divisor) \<and> \<not> is_zero (value divisor) \<longrightarrow>
          is_finite (d_fmod (value x) (value divisor))
          \<and> mag (d_fmod (value x) (value divisor)) = mag (value x) mod mag (value divisor))
    \<and> mod_scalar (Scalar U (d_of_int (- 7))) (Scalar U (d_of_int 3)) = Inr (Scalar U (d_of_int (- 1)))
    \<and> d_of_int (- 1) \<noteq> d_of_int 2"
proof -
  have 1: "mod_scalar x divisor = Inr (Scalar (tag x) (d_fmod (value x) (value divisor)))"
    using assms by (simp add: mod_scalar_def accepts_def)
  have "d_fmod (d_of_int (- 7)) (d_of_int 3) = d_of_int (- 1)"
    using d_fmod_d_of_int [of "- 7" 3] by (simp add: d_of_int_def)
  then have 2: "mod_scalar (Scalar U (d_of_int (- 7))) (Scalar U (d_of_int 3)) = Inr (Scalar U (d_of_int (- 1)))"
    by (simp add: mod_scalar_def accepts_def Scalar_def)
  have "sign_bit (d_of_int (- 1)) \<noteq> sign_bit (d_of_int 2)"
    by (simp add: d_of_int_small)
  then have 3: "d_of_int (- 1) \<noteq> d_of_int 2" by auto
  show ?thesis
    using 1 2 3 d_fmod_sign [of "value x" "value divisor"]
      d_fmod_finite(2,4) [of "value x" "value divisor"]
    by blast
qed

theorem mod_sign_follows_dividend_witness:
  "mod_scalar (Scalar dimensionless (d_of_int (- 7))) (Scalar dimensionless (d_of_int 3)) =
     Inr (Scalar dimensionless (d_of_int (- 1)))
   \<and> sign_bit (d_fmod (d_of_int (- 7)) (d_of_int 3))
   \<and> mag (d_fmod (d_of_int (- 7)) (d_of_int 3)) = 1 * unit_scale"
proof -
  have t: "tag (Scalar dimensionless (d_of_int 3)) = tag (Scalar dimensionless (d_of_int (- 7)))"
    by (simp add: Scalar_def)
  have v: "value (Scalar dimensionless (d_of_int (- 7))) = d_of_int (- 7)"
    "value (Scalar dimensionless (d_of_int 3)) = d_of_int 3"
    by (simp_all add: Scalar_def)
  have f: "is_finite (d_of_int (- 7))" "is_finite (d_of_int 3)" "\<not> is_zero (d_of_int 3)"
    by (simp_all add: d_of_int_small not_zero_d_of_int)
  have m: "mag (d_of_int (- 7)) mod mag (d_of_int 3) = 1 * unit_scale"
    using d_of_int_small(3) [of "- 7"] d_of_int_small(3) [of 3] by simp
  have s: "sign_bit (d_of_int (- 7))" by (simp add: d_of_int_small)
  have n: "\<not> is_nan (d_fmod (d_of_int (- 7)) (d_of_int 3))"
    using d_fmod_finite(2) [OF f] finite_not_nan_inf by blast
  show ?thesis
    using mod_sign_follows_dividend [OF t, of dimensionless, unfolded v] f m s n
    by metis
qed

section \<open>Rounding of squares and of square roots\<close>

lemma isqrt_bounds: "isqrt n * isqrt n \<le> n \<and> n < (isqrt n + 1) * (isqrt n + 1)"
proof (induction n rule: isqrt.induct)
  case (1 n)
  show ?case
  proof (cases "n = 0")
    case True
    then show ?thesis by (simp add: isqrt.simps)
  next
    case False
    define q where "q = isqrt (n div 4)"
    define r where "r = 2 * q"
    have ih: "q * q \<le> n div 4 \<and> n div 4 < (q + 1) * (q + 1)"
      using "1.IH" False by (simp add: q_def)
    have lo: "r * r \<le> n"
    proof -
      have "4 * (q * q) \<le> 4 * (n div 4)" using ih by simp
      also have "\<dots> \<le> n" by simp
      finally show ?thesis by (simp add: r_def)
    qed
    have hi: "n < (r + 2) * (r + 2)"
    proof -
      have "n div 4 + 1 \<le> (q + 1) * (q + 1)" using ih by simp
      then have "4 * (n div 4 + 1) \<le> 4 * ((q + 1) * (q + 1))" by simp
      moreover have "n < 4 * (n div 4 + 1)" by simp
      ultimately show ?thesis by (simp add: r_def algebra_simps)
    qed
    have res: "isqrt n = (if (r + 1) * (r + 1) \<le> n then r + 1 else r)"
      using False by (subst isqrt.simps) (simp add: Let_def r_def q_def)
    show ?thesis
    proof (cases "(r + 1) * (r + 1) \<le> n")
      case True
      then show ?thesis using hi by (simp add: res)
    next
      case False
      then show ?thesis using lo by (simp add: res)
    qed
  qed
qed

lemma square_less_imp_less: "(a::nat) * a < b * b \<Longrightarrow> a < b"
  by (metis leI mult_le_mono not_less)

lemma isqrt_between:
  assumes "A * A < n" and "n < B * B"
  shows "A \<le> isqrt n" and "isqrt n < B" and "isqrt n * isqrt n = n \<Longrightarrow> A < isqrt n"
proof -
  have "A * A < (isqrt n + 1) * (isqrt n + 1)" using assms(1) isqrt_bounds [of n] by linarith
  then have "A < isqrt n + 1" by (rule square_less_imp_less)
  then show "A \<le> isqrt n" by simp
  have "isqrt n * isqrt n < B * B" using assms(2) isqrt_bounds [of n] by linarith
  then show "isqrt n < B" by (rule square_less_imp_less)
  show "A < isqrt n" if "isqrt n * isqrt n = n"
    using assms(1) that square_less_imp_less [of A "isqrt n"] by simp
qed

lemma isqrt_square: "isqrt (k * k) = k"
proof -
  have "isqrt (k * k) * isqrt (k * k) < (k + 1) * (k + 1)"
    using isqrt_bounds [of "k * k"] by (simp add: algebra_simps) 
  then have "isqrt (k * k) < k + 1" by (rule square_less_imp_less)
  moreover have "k * k < (isqrt (k * k) + 1) * (isqrt (k * k) + 1)"
    using isqrt_bounds [of "k * k"] by simp
  then have "k < isqrt (k * k) + 1" by (rule square_less_imp_less)
  ultimately show ?thesis by simp
qed

lemma near_lo:
  fixes num :: nat
  assumes "k < M" and "2 * (M * d) < 2 * num + d"
  shows "k * d < num"
proof -
  have "(k + 1) * d \<le> M * d" using assms(1) by (intro mult_le_mono1) simp
  then have "k * d + d \<le> M * d" by (simp only: add_mult_distrib mult_1)
  then show ?thesis using assms(2) by linarith
qed

lemma near_hi:
  fixes num :: nat
  assumes "M < k" and "2 * num < 2 * (M * d) + d"
  shows "num < k * d"
proof -
  have "(M + 1) * d \<le> k * d" using assms(1) by (intro mult_le_mono1) simp
  then have "M * d + d \<le> k * d" by (simp only: add_mult_distrib mult_1)
  then show ?thesis using assms(2) by linarith
qed

lemma ru_near:
  assumes "0 < den" and "2 ^ 52 < M" and "M < 2 ^ 53"
    and "2 * (M * (den * 2 ^ s)) < 2 * num + den * 2 ^ s"
    and "2 * num < 2 * (M * (den * 2 ^ s)) + den * 2 ^ s"
  shows "round_units num den = min inf_bits (s * 2 ^ 52 + M)"
proof -
  define d where "d = den * 2 ^ s"
  have d: "0 < d" using assms(1) by (simp add: d_def)
  have a4: "2 * (M * d) < 2 * num + d" and a5: "2 * num < 2 * (M * d) + d"
    using assms(4,5) by (simp_all only: d_def)
  have "2 ^ 52 * d < num" using assms(2) a4 by (rule near_lo)
  moreover have "2 ^ (52 + s) * den = 2 ^ 52 * d" by (simp add: d_def power_add)
  ultimately have lo: "2 ^ (52 + s) * den \<le> num" by linarith
  have "num < 2 ^ 53 * d" using assms(3) a5 by (rule near_hi)
  moreover have "2 ^ (53 + s) * den = 2 ^ 53 * d" by (simp add: d_def power_add)
  ultimately have hi: "num < 2 ^ (53 + s) * den" by linarith
  have "round_half_even num d = M"
    using d a4 a5 by (rule rhe_near)
  then show ?thesis using ru_high [OF assms(1) lo hi] by (simp add: d_def)
qed

lemma mul_round_core:
  assumes "2 ^ (104 + c) \<le> M * M" and "M * M < 2 ^ (105 + c)"
  shows "round_units (M * M * 2 ^ e2) (2 ^ 52) =
    min inf_bits ((e2 + c) * 2 ^ 52 + round_half_even (M * M) (2 ^ (52 + c)))"
proof -
  have "2 ^ (104 + c) * 2 ^ e2 \<le> M * M * 2 ^ e2" using assms(1) by (rule mult_le_mono1)
  moreover have "(2::nat) ^ (52 + (e2 + c)) * 2 ^ 52 = 2 ^ (104 + c) * 2 ^ e2"
    by (simp add: power_add)
  ultimately have lo: "2 ^ (52 + (e2 + c)) * 2 ^ 52 \<le> M * M * 2 ^ e2" by simp
  have "M * M * 2 ^ e2 < 2 ^ (105 + c) * 2 ^ e2" using assms(2) by simp
  moreover have "(2::nat) ^ (53 + (e2 + c)) * 2 ^ 52 = 2 ^ (105 + c) * 2 ^ e2"
    by (simp add: power_add)
  ultimately have hi: "M * M * 2 ^ e2 < 2 ^ (53 + (e2 + c)) * 2 ^ 52" by simp
  have "round_units (M * M * 2 ^ e2) (2 ^ 52) =
      min inf_bits ((e2 + c) * 2 ^ 52 + round_half_even (M * M * 2 ^ e2) (2 ^ 52 * 2 ^ (e2 + c)))"
    using lo hi by (intro ru_high) simp_all
  moreover have "round_half_even (2 ^ e2 * (M * M)) (2 ^ e2 * 2 ^ (52 + c)) =
      round_half_even (M * M) (2 ^ (52 + c))"
    by (rule rhe_scale) simp
  moreover have "M * M * 2 ^ e2 = 2 ^ e2 * (M * M)" by (rule mult.commute)
  moreover have "(2::nat) ^ 52 * 2 ^ (e2 + c) = 2 ^ e2 * 2 ^ (52 + c)"
    by (simp add: power_add)
  ultimately show ?thesis by (simp only:)
qed

lemma square_bounds:
  fixes M :: nat
  assumes "K \<le> M" and "M < 2 * K"
  shows "K * K \<le> M * M" and "M * M < 4 * (K * K)" and "M * M < (2 * K - 1) * (2 * K)"
proof -
  show "K * K \<le> M * M" using assms(1) by (intro mult_le_mono)
  have "M * M < (2 * K) * (2 * K)" using assms(2) by (intro mult_strict_mono) simp_all
  then show "M * M < 4 * (K * K)" by (simp add: algebra_simps)
  have "M \<le> 2 * K - 1" using assms(2) by simp
  then have "M * M \<le> (2 * K - 1) * (2 * K - 1)" by (intro mult_le_mono)
  moreover have "0 < K" using assms by simp
  then have "(2 * K - 1) * (2 * K - 1) < (2 * K - 1) * (2 * K)" by simp
  ultimately show "M * M < (2 * K - 1) * (2 * K)" by linarith
qed

text \<open>
  The square of a double between \<open>2 ^ -511\<close> and \<open>2 ^ 512\<close>: it is finite, and its
  distance from the exact square is at most half a unit in the last place.
\<close>

lemma d_mul_square:
  assumes a: "is_finite a" "mbits a = E * 2 ^ 52 + M"
    and M: "2 ^ 52 \<le> M" "M < 2 ^ 53" and E: "511 \<le> E" "E \<le> 1533"
  obtains Q where "is_finite (d_mul a a)" and "\<not> sign_bit (d_mul a a)"
    and "mag (d_mul a a) * unit_scale = Q * (2 ^ E * 2 ^ E)"
    and "M * M \<le> Q + 2 ^ 52" and "Q \<le> M * M + 2 ^ 52" and "M = 2 ^ 52 \<longrightarrow> Q = M * M"
    and "0 < Q"
proof -
  define K :: nat where "K = 2 ^ 52"
  define T :: nat where "T = 2 ^ 1022"
  define e2 where "e2 = 2 * E - 1022"
  have Kpos: "0 < K" by (simp add: K_def)
  have K: "2 ^ 52 = K" "2 ^ 53 = 2 * K" by (simp_all add: K_def)
  have MK: "K \<le> M" "M < 2 * K" using M unfolding K by simp_all
  have maga: "mag a = M * 2 ^ E" using a(2) by (rule mag_mbits) (use M in simp_all)
  have EE: "(2::nat) ^ E * 2 ^ E = T * 2 ^ e2"
  proof -
    have "E + E = 1022 + e2" using E by (simp add: e2_def)
    then show ?thesis unfolding T_def by (simp only: power_add [symmetric])
  qed
  have us: "unit_scale = T * 2 ^ 52"
    unfolding unit_scale_def T_def by (simp add: power_add [symmetric])
  have num: "mag a * mag a = T * (M * M * 2 ^ e2)"
  proof -
    have "mag a * mag a = M * M * (2 ^ E * 2 ^ E)" by (simp add: maga)
    then show ?thesis by (simp only: EE mult.assoc mult.left_commute)
  qed
  have "d_mul a a = pack False (round_units (mag a * mag a) unit_scale)"
    using finite_not_nan_inf [OF a(1)] by (simp add: d_mul_def)
  moreover have "round_units (T * (M * M * 2 ^ e2)) (T * 2 ^ 52) = round_units (M * M * 2 ^ e2) (2 ^ 52)"
    by (rule ru_scale) (simp add: T_def)
  ultimately have dm: "d_mul a a = pack False (round_units (M * M * 2 ^ e2) (2 ^ 52))"
    by (simp only: num us)
  define c :: nat where "c = (if M * M < 2 * (K * K) then 0 else 1)"
  define d :: nat where "d = 2 ^ (52 + c)"
  have d: "d = K * 2 ^ c" by (simp add: d_def power_add K_def)
  have p104: "(2::nat) ^ (104 + c) = K * d" by (simp add: d_def K_def power_add)
  have p105: "(2::nat) ^ (105 + c) = 2 * K * d" by (simp add: d_def K_def power_add)
  have sq: "K * K \<le> M * M" "M * M < 4 * (K * K)" "M * M < (2 * K - 1) * (2 * K)"
    using MK by (rule square_bounds)+
  have clo: "K * d \<le> M * M" using sq(1) by (auto simp: c_def d)
  have chi: "M * M < 2 * K * d" using sq(2) by (auto simp: c_def d)
  define Pm where "Pm = round_half_even (M * M) d"
  have ru: "round_units (M * M * 2 ^ e2) (2 ^ 52) = min inf_bits ((e2 + c) * 2 ^ 52 + Pm)"
    unfolding Pm_def d_def using clo chi unfolding p104 [symmetric] p105 [symmetric]
    by (rule mul_round_core)
  have dpos: "0 < d" by (simp add: d_def)
  have Pm_lo: "K \<le> Pm" unfolding Pm_def using dpos clo by (rule rhe_bounds(1)) (rule chi)
  have Pm_hi: "Pm \<le> 2 * K" unfolding Pm_def using dpos clo chi by (rule rhe_bounds(2))
  have Pm_hi1: "c = 1 \<Longrightarrow> Pm \<le> 2 * K - 1"
  proof -
    assume "c = 1"
    then have "d = 2 * K" by (simp add: d)
    then have "M * M < (2 * K - 1) * d" using sq(3) by simp
    then show ?thesis unfolding Pm_def using dpos clo by (intro rhe_bounds(2))
  qed
  have e2: "e2 \<le> 2044" using E by (simp add: e2_def)
  have c: "c \<le> 1" by (simp add: c_def)
  have bits: "(e2 + c) * 2 ^ 52 + Pm < inf_bits"
  proof (cases "c = 0")
    case True
    have "e2 * K \<le> 2044 * K" using e2 by simp
    then have "e2 * K + Pm < 2047 * K" using Pm_hi Kpos by linarith
    then show ?thesis by (simp add: True inf_bits_def K_def)
  next
    case False
    then have c1: "c = 1" using c by simp
    have "(e2 + 1) * K \<le> 2045 * K" using e2 by simp
    then have "(e2 + 1) * K + Pm < 2047 * K" using Pm_hi1 [OF c1] Kpos by linarith
    then show ?thesis by (simp add: c1 inf_bits_def K_def)
  qed
  have "min inf_bits ((e2 + c) * 2 ^ 52 + Pm) = (e2 + c) * 2 ^ 52 + Pm"
    using bits by (intro min_absorb2) (rule less_imp_le)
  then have dm2: "d_mul a a = pack False ((e2 + c) * 2 ^ 52 + Pm)"
    by (simp only: dm ru)
  have b63: "(e2 + c) * 2 ^ 52 + Pm < 2 ^ 63" using bits inf_bits_less by linarith
  have fin: "is_finite (d_mul a a)" unfolding dm2 using bits by (rule finite_pack)
  have sgn: "\<not> sign_bit (d_mul a a)" unfolding dm2 using b63 by (simp add: sign_bit_pack)
  have "mbits (d_mul a a) = (e2 + c) * 2 ^ 52 + Pm" unfolding dm2 using b63 by (rule mbits_pack)
  then have magm: "mag (d_mul a a) = Pm * 2 ^ (e2 + c)"
    using Pm_lo Pm_hi by (intro mag_mbits) (simp_all add: K_def)
  define Q where "Q = Pm * d"
  have scale: "mag (d_mul a a) * unit_scale = Q * (2 ^ E * 2 ^ E)"
    unfolding magm us EE Q_def d by (simp add: power_add K_def)
  have err: "2 * Q \<le> 2 * (M * M) + d" "2 * (M * M) \<le> 2 * Q + d"
    unfolding Q_def Pm_def using rhe_error [OF dpos] by simp_all
  have "c = 0 \<or> c = 1" using c by linarith
  then have dle: "d \<le> 2 * K" by (auto simp: d)
  have e1: "M * M \<le> Q + 2 ^ 52" using err(2) dle by (simp add: K_def)
  have e3: "Q \<le> M * M + 2 ^ 52" using err(1) dle by (simp add: K_def)
  have ex: "M = 2 ^ 52 \<longrightarrow> Q = M * M"
  proof
    assume "M = 2 ^ 52"
    then have MK: "M = K" by (simp add: K_def)
    then have "c = 0" using Kpos by (simp add: c_def)
    then have "d = K" by (simp add: d)
    then have "Pm = K" unfolding Pm_def MK using Kpos by (simp add: rhe_exact)
    then show "Q = M * M" by (simp add: Q_def MK \<open>d = K\<close>)
  qed
  have "0 < Q" using Pm_lo Kpos dpos by (simp add: Q_def)
  then show ?thesis using that fin sgn scale e1 e3 ex by blast
qed

lemma odd_square_expand:
  fixes M :: nat
  assumes "0 < M"
  shows "(2 * M - 1) * (2 * M - 1) + 4 * M = 4 * (M * M) + 1"
    and "(2 * M + 1) * (2 * M + 1) = 4 * (M * M) + 4 * M + 1"
proof -
  obtain k where k: "M = Suc k" using assms by (cases M) auto
  show "(2 * M - 1) * (2 * M - 1) + 4 * M = 4 * (M * M) + 1"
    by (simp add: k algebra_simps)
  show "(2 * M + 1) * (2 * M + 1) = 4 * (M * M) + 4 * M + 1"
    by (simp add: algebra_simps)
qed

lemma d_sqrt_near:
  assumes w: "is_finite w" "\<not> sign_bit w"
    and sc: "mag w * unit_scale = Q * (2 ^ E * 2 ^ E)" and Q: "0 < Q"
    and M: "2 ^ 52 \<le> M" "M < 2 ^ 53"
    and err: "M * M \<le> Q + 2 ^ 52" "Q \<le> M * M + 2 ^ 52" "M = 2 ^ 52 \<longrightarrow> Q = M * M"
    and bits: "E * 2 ^ 52 + M < inf_bits"
  shows "d_sqrt w = pack False (E * 2 ^ 52 + M)"
proof -
  define K :: nat where "K = 2 ^ 52"
  define t :: nat where "t = 2 ^ E"
  define n where "n = 4 * (mag w * unit_scale)"
  define r where "r = isqrt n"
  have Kpos: "0 < K" by (simp add: K_def)
  have K: "2 ^ 52 = K" by (simp add: K_def)
  have tpos: "0 < t" by (simp add: t_def)
  have Mpos: "0 < M" using M(1) by simp
  have n: "n = 4 * Q * (t * t)" by (simp add: n_def sc t_def)
  have "0 < mag w" using sc Q tpos unit_scale_pos by (cases "mag w = 0") (simp_all add: t_def)
  then have nz: "\<not> is_zero w" using mag_zero [of w] by auto
  have ds: "d_sqrt w = pack False (if r * r = n then round_units r 2 else round_units (2 * r + 1) 4)"
    using finite_not_nan_inf [OF w(1)] w(2) nz by (simp add: d_sqrt_def Let_def n_def r_def)
  have "(if r * r = n then round_units r 2 else round_units (2 * r + 1) 4) =
      min inf_bits (E * 2 ^ 52 + M)"
  proof (cases "M = 2 ^ 52")
    case True
    then have "Q = M * M" using err(3) by simp
    then have "n = (2 * M * t) * (2 * M * t)" by (simp add: n algebra_simps)
    then have r: "r = 2 * M * t" unfolding r_def by (simp only: isqrt_square)
    then have "r * r = n" using \<open>n = (2 * M * t) * (2 * M * t)\<close> by simp
    moreover have "round_units (M * 2 ^ E * 2) 2 = min inf_bits (E * 2 ^ 52 + M)"
      using M by (intro ru_exact_high) simp_all
    moreover have "r = M * 2 ^ E * 2" by (simp add: r t_def)
    ultimately show ?thesis by simp
  next
    case False
    then have MK: "K < M" using M(1) by (simp add: K_def)
    have e1: "M * M \<le> Q + K" and e2: "Q \<le> M * M + K" using err(1,2) unfolding K by simp_all
    define A where "A = (2 * M - 1) * t"
    define B where "B = (2 * M + 1) * t"
    have sqA: "(2 * M - 1) * (2 * M - 1) + 4 * M = 4 * (M * M) + 1"
      and sqB: "(2 * M + 1) * (2 * M + 1) = 4 * (M * M) + 4 * M + 1"
      using odd_square_expand [OF Mpos] by simp_all
    have "(2 * M - 1) * (2 * M - 1) < 4 * Q" using sqA MK e1 by linarith
    then have "(2 * M - 1) * (2 * M - 1) * (t * t) < 4 * Q * (t * t)"
      using tpos by (intro mult_strict_right_mono) simp_all
    then have An: "A * A < n" by (simp add: A_def n algebra_simps)
    have "4 * Q < (2 * M + 1) * (2 * M + 1)" using sqB MK e2 by linarith
    then have "4 * Q * (t * t) < (2 * M + 1) * (2 * M + 1) * (t * t)"
      using tpos by (intro mult_strict_right_mono) simp_all
    then have nB: "n < B * B" by (simp add: B_def n algebra_simps)
    have rA: "A \<le> r" and rB: "r < B" and rA': "r * r = n \<Longrightarrow> A < r"
      unfolding r_def using isqrt_between [OF An nB] by simp_all
    have At: "A + t = 2 * (M * t)" using Mpos by (cases M) (simp_all add: A_def algebra_simps)
    have Bt: "B = 2 * (M * t) + t" by (simp add: B_def algebra_simps)
    have M52: "2 ^ 52 < M" using MK by (simp add: K_def)
    show ?thesis
    proof (cases "r * r = n")
      case True
      have "A < r" using True by (rule rA')
      then have "4 * (M * t) < 2 * r + 2 * t" using At by linarith
      then have 1: "2 * (M * (2 * t)) < 2 * r + 2 * t" by simp
      have "2 * r < 4 * (M * t) + 2 * t" using rB Bt by linarith
      then have 2: "2 * r < 2 * (M * (2 * t)) + 2 * t" by simp
      have "round_units r 2 = min inf_bits (E * 2 ^ 52 + M)"
        using _ M52 M(2) 1 2 unfolding t_def by (rule ru_near) simp
      then show ?thesis using True by simp
    next
      case False
      have "8 * (M * t) < 4 * r + 2 + 4 * t" using rA At by linarith
      then have 1: "2 * (M * (4 * t)) < 2 * (2 * r + 1) + 4 * t" by simp
      have "4 * r + 2 < 8 * (M * t) + 4 * t" using rB Bt by linarith
      then have 2: "2 * (2 * r + 1) < 2 * (M * (4 * t)) + 4 * t" by simp
      have "round_units (2 * r + 1) 4 = min inf_bits (E * 2 ^ 52 + M)"
        using _ M52 M(2) 1 2 unfolding t_def by (rule ru_near) simp
      then show ?thesis using False by simp
    qed
  qed
  moreover have "min inf_bits (E * 2 ^ 52 + M) = E * 2 ^ 52 + M"
    using bits by (intro min_absorb2) (rule less_imp_le)
  ultimately show ?thesis by (simp only: ds)
qed

lemma finite_mbits: "is_finite a \<Longrightarrow> mbits a < inf_bits"
proof -
  assume "is_finite a"
  then have "expo a \<le> 2046" by (simp add: is_finite_def)
  then have "expo a * 2 ^ 52 \<le> 2046 * 2 ^ 52" by simp
  moreover have "mbits a = expo a * 2 ^ 52 + fraction a" by (simp add: expo_def fraction_def)
  ultimately show ?thesis using fraction_less [of a] by (simp add: inf_bits_def)
qed

lemma d_sqrt_square:
  assumes "is_finite a" and "\<not> sign_bit a" and "2 ^ 563 \<le> mag a" and "mag a < 2 ^ 1586"
  shows "d_sqrt (d_mul a a) = a"
proof -
  obtain M E where f: "mag a = M * 2 ^ E" "M < 2 ^ 53" "E = 0 \<or> 2 ^ 52 \<le> M"
    "mbits a = E * 2 ^ 52 + M"
    using assms(1) by (rule finite_form)
  have "(2::nat) ^ 563 < 2 ^ 53 * 2 ^ E"
  proof -
    have "M * 2 ^ E < 2 ^ 53 * 2 ^ E" using f(2) by simp
    then show ?thesis using assms(3) unfolding f(1) by linarith
  qed
  then have "(2::nat) ^ 563 < 2 ^ (53 + E)" by (simp only: power_add)
  then have "563 < 53 + E" by (simp only: power_strict_increasing_iff [of 2])
  then have E1: "511 \<le> E" by simp
  then have M: "2 ^ 52 \<le> M" using f(3) by auto
  have "(2::nat) ^ 52 * 2 ^ E \<le> M * 2 ^ E" using M by (rule mult_le_mono1)
  then have "(2::nat) ^ 52 * 2 ^ E < 2 ^ 1586" using assms(4) unfolding f(1) by linarith
  then have "(2::nat) ^ (52 + E) < 2 ^ 1586" by (simp only: power_add)
  then have "52 + E < 1586" by (simp only: power_strict_increasing_iff [of 2])
  then have E2: "E \<le> 1533" by simp
  obtain Q where m: "is_finite (d_mul a a)" "\<not> sign_bit (d_mul a a)"
    "mag (d_mul a a) * unit_scale = Q * (2 ^ E * 2 ^ E)"
    "M * M \<le> Q + 2 ^ 52" "Q \<le> M * M + 2 ^ 52" "M = 2 ^ 52 \<longrightarrow> Q = M * M" "0 < Q"
    using assms(1) f(4) M f(2) E1 E2 by (rule d_mul_square)
  have bits: "E * 2 ^ 52 + M < inf_bits" using finite_mbits [OF assms(1)] by (simp only: f(4))
  have "d_sqrt (d_mul a a) = pack False (E * 2 ^ 52 + M)"
    using m(1,2,3) m(7) M f(2) m(4,5,6) bits by (rule d_sqrt_near)
  also have "\<dots> = pack (sign_bit a) (mbits a)" using assms(2) by (simp only: f(4))
  finally show ?thesis by (simp only: pack_decode)
qed

section \<open>Rounding in general\<close>

lemma bit_length_less: "bit_length n \<le> k \<Longrightarrow> n < 2 ^ k"
proof (cases "n = 0")
  case True
  then show ?thesis by simp
next
  case False
  assume "bit_length n \<le> k"
  then have "(2::nat) ^ bit_length n \<le> 2 ^ k" by (intro power_increasing) simp_all
  then show ?thesis using bit_length_bounds [of n] False by linarith
qed

text \<open>The shape of every rounding: the exponent part \<open>s\<close> and the rounded significand \<open>P\<close>.\<close>

lemma ru_shape:
  assumes "0 < den"
  obtains s P where "s = bit_length (num div den) - 53"
    and "P = round_half_even num (den * 2 ^ s)"
    and "round_units num den = min inf_bits (s * 2 ^ 52 + P)"
    and "P \<le> 2 ^ 53" and "s = 0 \<or> 2 ^ 52 \<le> P"
    and "num < 2 ^ 53 * (den * 2 ^ s)" and "s = 0 \<or> 2 ^ 52 * (den * 2 ^ s) \<le> num"
proof -
  define s where "s = bit_length (num div den) - 53"
  define d where "d = den * 2 ^ s"
  define P where "P = round_half_even num d"
  have d: "0 < d" using assms by (simp add: d_def)
  have ru: "round_units num den = min inf_bits (s * 2 ^ 52 + P)"
    by (simp add: round_units_def Let_def s_def P_def d_def)
  have hi: "num < 2 ^ 53 * d"
  proof -
    have "bit_length (num div den) \<le> 53 + s" by (simp add: s_def)
    then have "num div den < 2 ^ (53 + s)" by (rule bit_length_less)
    then have "num < 2 ^ (53 + s) * den" using assms by (simp add: div_less_iff_less_mult)
    moreover have "2 ^ (53 + s) * den = 2 ^ 53 * d" by (simp add: d_def power_add)
    ultimately show ?thesis by simp
  qed
  have lo: "s = 0 \<or> 2 ^ 52 * d \<le> num"
  proof (cases "s = 0")
    case True
    then show ?thesis by simp
  next
    case False
    then have L: "bit_length (num div den) = 53 + s" by (simp add: s_def)
    then have "0 < num div den" by (cases "num div den = 0") (simp_all add: bit_length_0)
    then have "2 ^ (bit_length (num div den) - 1) \<le> num div den"
      using bit_length_bounds by blast
    then have "2 ^ (52 + s) \<le> num div den" by (simp add: L)
    then have "2 ^ (52 + s) * den \<le> num" using assms by (simp add: less_eq_div_iff_mult_less_eq)
    moreover have "2 ^ (52 + s) * den = 2 ^ 52 * d" by (simp add: d_def power_add)
    ultimately show ?thesis by simp
  qed
  have P53: "P \<le> 2 ^ 53" unfolding P_def by (rule rhe_bounds(2) [OF d _ hi, of 0]) simp
  have P52: "s = 0 \<or> 2 ^ 52 \<le> P"
  proof (cases "s = 0")
    case True
    then show ?thesis by simp
  next
    case False
    then have "2 ^ 52 * d \<le> num" using lo by simp
    then have "2 ^ 52 \<le> P" unfolding P_def using d hi by (intro rhe_bounds(1))
    then show ?thesis by simp
  qed
  show ?thesis
    using that [of s P] ru P53 P52 hi lo unfolding P_def d_def s_def by blast
qed

lemma ru_finite:
  assumes "0 < den" and "round_units num den < inf_bits"
  shows "is_finite (pack sg (round_units num den))"
    and "mag (pack sg (round_units num den)) =
      round_half_even num (den * 2 ^ (bit_length (num div den) - 53)) *
        2 ^ (bit_length (num div den) - 53)"
proof -
  obtain s P where sP: "s = bit_length (num div den) - 53"
    "P = round_half_even num (den * 2 ^ s)"
    "round_units num den = min inf_bits (s * 2 ^ 52 + P)"
    "P \<le> 2 ^ 53" "s = 0 \<or> 2 ^ 52 \<le> P"
    using assms(1) by (rule ru_shape)
  have bits: "round_units num den = s * 2 ^ 52 + P" using assms(2) sP(3) by simp
  show "is_finite (pack sg (round_units num den))" using assms(2) by (rule finite_pack)
  have "round_units num den < 2 ^ 63" using assms(2) inf_bits_less by linarith
  then have "mbits (pack sg (round_units num den)) = s * 2 ^ 52 + P"
    unfolding bits by (rule mbits_pack)
  then have "mag (pack sg (round_units num den)) = P * 2 ^ s"
    using sP(4,5) by (rule mag_mbits)
  then show "mag (pack sg (round_units num den)) =
      round_half_even num (den * 2 ^ (bit_length (num div den) - 53)) *
        2 ^ (bit_length (num div den) - 53)"
    by (simp only: sP(1,2))
qed

text \<open>The error of a rounding that does not overflow is at most half a unit in the last place.\<close>

lemma ru_half_ulp:
  assumes "0 < den" and "round_units num den < inf_bits"
  shows "2 * \<bar>int (mag (pack sg (round_units num den)) * den) - int num\<bar>
    \<le> int (den * 2 ^ (bit_length (num div den) - 53))"
proof -
  define s where "s = bit_length (num div den) - 53"
  define d where "d = den * 2 ^ s"
  define P where "P = round_half_even num d"
  have d: "0 < d" using assms(1) by (simp add: d_def)
  have "mag (pack sg (round_units num den)) = P * 2 ^ s"
    using ru_finite(2) [OF assms] by (simp only: P_def d_def s_def)
  then have m: "mag (pack sg (round_units num den)) * den = P * d"
    by (simp add: d_def)
  define X where "X = P * d"
  have "2 * X \<le> 2 * num + d" and "2 * num \<le> 2 * X + d"
    unfolding X_def P_def using rhe_error [OF d] by simp_all
  then have "2 * int X \<le> 2 * int num + int d" and "2 * int num \<le> 2 * int X + int d"
    by linarith+
  then have "2 * \<bar>int X - int num\<bar> \<le> int d"
    by (cases "int num \<le> int X") (simp_all add: abs_if)
  then show ?thesis unfolding m X_def d_def s_def .
qed

lemma rhe_up:
  assumes "0 < d" and "(2 * m + 1) * d \<le> 2 * num" and "odd m"
  shows "m + 1 \<le> round_half_even num d"
proof -
  define f where "f = num div d"
  define r where "r = num mod d"
  have num: "num = f * d + r" by (simp add: f_def r_def)
  have r: "r < d" using assms(1) by (simp add: r_def)
  have P: "round_half_even num d = (if 2 * r < d \<or> (2 * r = d \<and> even f) then f else f + 1)"
    by (simp add: round_half_even_def Let_def f_def r_def)
  have mf: "m \<le> f"
  proof (rule ccontr)
    assume "\<not> m \<le> f"
    then have "f + 1 \<le> m" by simp
    then have "(f + 1) * d \<le> m * d" by (rule mult_le_mono1)
    then have "f * d + d \<le> m * d" by (simp only: add_mult_distrib mult_1)
    moreover have "(2 * m + 1) * d = 2 * (m * d) + d" by (simp add: algebra_simps)
    ultimately show False using assms(2) r num by linarith
  qed
  show ?thesis
  proof (cases "m = f")
    case True
    have "(2 * m + 1) * d = 2 * (f * d) + d" by (simp add: True algebra_simps)
    then have "d \<le> 2 * r" using assms(2) num by linarith
    moreover have "odd f" using assms(3) True by simp
    ultimately show ?thesis by (simp add: P True)
  next
    case False
    then have "m + 1 \<le> f" using mf by simp
    then show ?thesis by (simp add: P)
  qed
qed

lemma rhe_min:
  assumes "0 < d"
  shows "\<bar>int (round_half_even num d * d) - int num\<bar> \<le> int (num mod d)"
    and "\<bar>int (round_half_even num d * d) - int num\<bar> \<le> int d - int (num mod d)"
proof -
  define f where "f = num div d"
  define r where "r = num mod d"
  define X where "X = f * d"
  have num: "num = X + r" by (simp add: X_def f_def r_def)
  have r: "r < d" using assms(1) by (simp add: r_def)
  have P: "round_half_even num d = (if 2 * r < d \<or> (2 * r = d \<and> even f) then f else f + 1)"
    by (simp add: round_half_even_def Let_def f_def r_def)
  have "\<bar>int (round_half_even num d * d) - int num\<bar> \<le> int r
      \<and> \<bar>int (round_half_even num d * d) - int num\<bar> \<le> int d - int r"
  proof (cases "2 * r < d \<or> (2 * r = d \<and> even f)")
    case True
    then have "round_half_even num d = f" by (simp only: P if_True)
    then have "round_half_even num d * d = X" by (simp add: X_def)
    moreover have "2 * r \<le> d" using True by auto
    ultimately show ?thesis by (simp add: num)
  next
    case False
    then have "round_half_even num d = f + 1" by (simp only: P if_False)
    then have "round_half_even num d * d = X + d" by (simp add: X_def)
    moreover have "d \<le> 2 * r" using False by auto
    ultimately show ?thesis using r by (simp add: num)
  qed
  then show "\<bar>int (round_half_even num d * d) - int num\<bar> \<le> int (num mod d)"
    and "\<bar>int (round_half_even num d * d) - int num\<bar> \<le> int d - int (num mod d)"
    by (simp_all add: r_def)
qed

text \<open>No double lies strictly between the two candidates of a rounding.\<close>

lemma no_double_between:
  assumes "is_finite c" and "s = 0 \<or> 2 ^ 52 \<le> f"
  shows "mag c \<le> f * 2 ^ s \<or> (f + 1) * 2 ^ s \<le> mag c"
proof -
  obtain Pc sc where c: "mag c = Pc * 2 ^ sc" "Pc < 2 ^ 53"
    using assms(1) by (rule finite_form)
  show ?thesis
  proof (cases "s \<le> sc")
    case True
    then have "(2::nat) ^ s dvd 2 ^ sc" by (rule le_imp_power_dvd)
    then have "2 ^ s dvd mag c" by (simp add: c(1))
    then obtain k where k: "mag c = k * 2 ^ s" by (auto simp: dvd_def mult.commute)
    have "k \<le> f \<or> f + 1 \<le> k" by linarith
    then show ?thesis
    proof
      assume "k \<le> f"
      then have "k * 2 ^ s \<le> f * 2 ^ s" by (rule mult_le_mono1)
      then show ?thesis unfolding k by (rule disjI1)
    next
      assume "f + 1 \<le> k"
      then have "(f + 1) * 2 ^ s \<le> k * 2 ^ s" by (rule mult_le_mono1)
      then show ?thesis unfolding k by (rule disjI2)
    qed
  next
    case False
    then have "Suc sc \<le> s" by simp
    then have "(2::nat) ^ Suc sc \<le> 2 ^ s" by (intro power_increasing) simp_all
    moreover have "2 ^ 52 \<le> f" using False assms(2) by auto
    ultimately have "2 ^ 52 * (2::nat) ^ Suc sc \<le> f * 2 ^ s" by (intro mult_le_mono)
    moreover have "2 ^ 52 * (2::nat) ^ Suc sc = 2 ^ 53 * 2 ^ sc" by simp
    moreover have "Pc * 2 ^ sc < 2 ^ 53 * 2 ^ sc" using c(2) by simp
    ultimately have "mag c \<le> f * 2 ^ s" unfolding c(1) by linarith
    then show ?thesis by simp
  qed
qed

text \<open>A rounding that does not overflow yields a double nearest to the exact value.\<close>

lemma ru_nearest:
  assumes "0 < den" and "round_units num den < inf_bits" and "is_finite c"
  shows "\<bar>int (mag (pack sg (round_units num den)) * den) - int num\<bar>
    \<le> \<bar>int (mag c * den) - int num\<bar>"
proof -
  obtain s P where sP: "s = bit_length (num div den) - 53"
    "P = round_half_even num (den * 2 ^ s)"
    "s = 0 \<or> 2 ^ 52 * (den * 2 ^ s) \<le> num"
    using assms(1) by (rule ru_shape)
  define d where "d = den * 2 ^ s"
  define f where "f = num div d"
  define r where "r = num mod d"
  have d: "0 < d" using assms(1) by (simp add: d_def)
  have num: "num = f * d + r" by (simp add: f_def r_def)
  have r: "r < d" using d by (simp add: r_def)
  have "mag (pack sg (round_units num den)) = P * 2 ^ s"
    using ru_finite(2) [OF assms(1,2)] by (simp only: sP(1,2))
  then have m: "mag (pack sg (round_units num den)) * den = P * d"
    by (simp add: d_def)
  have e1: "\<bar>int (P * d) - int num\<bar> \<le> int r" and e2: "\<bar>int (P * d) - int num\<bar> \<le> int d - int r"
    unfolding sP(2) d_def [symmetric] r_def using rhe_min [OF d] by simp_all
  have "s = 0 \<or> 2 ^ 52 \<le> f"
  proof (cases "s = 0")
    case True
    then show ?thesis by simp
  next
    case False
    then have "2 ^ 52 * d \<le> num" using sP(3) by (simp add: d_def)
    then have "2 ^ 52 \<le> f" using d by (simp add: f_def less_eq_div_iff_mult_less_eq)
    then show ?thesis by simp
  qed
  then have "mag c \<le> f * 2 ^ s \<or> (f + 1) * 2 ^ s \<le> mag c"
    using assms(3) by (intro no_double_between)
  then show ?thesis
  proof
    assume "mag c \<le> f * 2 ^ s"
    then have "mag c * den \<le> f * 2 ^ s * den" by (rule mult_le_mono1)
    then have "mag c * den \<le> f * d" by (simp add: d_def mult.assoc mult.commute [of den])
    then have "int r \<le> \<bar>int (mag c * den) - int num\<bar>" unfolding num by linarith
    then show ?thesis unfolding m using e1 by linarith
  next
    assume "(f + 1) * 2 ^ s \<le> mag c"
    then have "(f + 1) * 2 ^ s * den \<le> mag c * den" by (rule mult_le_mono1)
    then have "f * d + d \<le> mag c * den" by (simp add: d_def algebra_simps)
    then have "int d - int r \<le> \<bar>int (mag c * den) - int num\<bar>" unfolding num by linarith
    then show ?thesis unfolding m using e2 by linarith
  qed
qed

text \<open>
  A rounding overflows exactly from the largest double plus half a unit in its last
  place upwards: \<open>(2 ^ 54 - 1) * 2 ^ 2045\<close> is twice that threshold.
\<close>

lemma ru_finite_iff:
  assumes "0 < den"
  shows "(round_units num den < inf_bits) = (2 * num < (2 ^ 54 - 1) * 2 ^ 2045 * den)"
proof -
  obtain s P where sP: "P = round_half_even num (den * 2 ^ s)"
    "round_units num den = min inf_bits (s * 2 ^ 52 + P)"
    "P \<le> 2 ^ 53" "s = 0 \<or> 2 ^ 52 \<le> P"
    "num < 2 ^ 53 * (den * 2 ^ s)" "s = 0 \<or> 2 ^ 52 * (den * 2 ^ s) \<le> num"
    using assms by (rule ru_shape)
  define K :: nat where "K = 2 ^ 52"
  define T :: nat where "T = 2 ^ 2045"
  define D where "D = den * T"
  define d where "d = den * 2 ^ s"
  have Kpos: "0 < K" by (simp add: K_def)
  have dpos: "0 < d" using assms by (simp add: d_def)
  have Dpos: "0 < D" using assms by (simp add: D_def T_def)
  have PK: "P \<le> 2 * K" using sP(3) by (simp add: K_def)
  have hi: "num < 2 * K * d" using sP(5) by (simp add: K_def d_def)
  have "(min inf_bits (s * 2 ^ 52 + P) < inf_bits) = (s * 2 ^ 52 + P < inf_bits)"
    by (simp add: min_less_iff_disj)
  then have lhs: "(round_units num den < inf_bits) = (s * K + P < 2047 * K)"
    by (simp add: sP(2) inf_bits_def K_def)
  have "(2 ^ 54 - 1) * 2 ^ 2045 * den = (4 * K - 1) * D"
    by (simp add: D_def T_def K_def mult.assoc mult.commute [of den])
  then have rhs: "(2 * num < (2 ^ 54 - 1) * 2 ^ 2045 * den) = (2 * num < (4 * K - 1) * D)"
    by simp
  have K4: "(4 * K - 1) * D + D = 4 * K * D"
  proof -
    have "4 * K - 1 + 1 = 4 * K" using Kpos by simp
    then have "(4 * K - 1 + 1) * D = 4 * K * D" by simp
    then show ?thesis by (simp only: add_mult_distrib mult_1)
  qed
  consider "s \<le> 2044" | "s = 2045" | "2046 \<le> s" by linarith
  then have "(s * K + P < 2047 * K) = (2 * num < (4 * K - 1) * D)"
  proof cases
    case 1
    have "s * K \<le> 2044 * K" using 1 by simp
    then have l: "s * K + P < 2047 * K" using PK Kpos by linarith
    have "(2::nat) ^ Suc s \<le> 2 ^ 2045" using 1 by (intro power_increasing) simp_all
    then have "(2::nat) ^ Suc s \<le> T" by (simp only: T_def)
    then have "den * 2 ^ Suc s \<le> den * T" by (rule mult_le_mono2)
    then have "2 * d \<le> D" by (simp add: d_def D_def)
    then have "2 * K * (2 * d) \<le> 2 * K * D" by (rule mult_le_mono2)
    moreover have "2 * num < 2 * (2 * K * d)" using hi by simp
    moreover have "2 * (2 * K * d) = 2 * K * (2 * d)" by simp
    moreover have "2 * K * D + 2 * K * D = 4 * K * D" by simp
    moreover have "D \<le> 2 * K * D" using Kpos by simp
    ultimately have "2 * num < (4 * K - 1) * D" using K4 by linarith
    then show ?thesis using l by simp
  next
    case 2
    have dD: "d = D" by (simp add: d_def D_def T_def 2)
    have l: "(s * K + P < 2047 * K) = (P < 2 * K)" by (auto simp: 2)
    have "(P < 2 * K) = (2 * num < (4 * K - 1) * D)"
    proof
      assume "P < 2 * K"
      show "2 * num < (4 * K - 1) * D"
      proof (rule ccontr)
        assume "\<not> 2 * num < (4 * K - 1) * D"
        then have "(4 * K - 1) * d \<le> 2 * num" by (simp add: dD)
        moreover have "4 * K - 1 = 2 * (2 * K - 1) + 1" using Kpos by simp
        ultimately have "(2 * (2 * K - 1) + 1) * d \<le> 2 * num" by simp
        moreover have "odd (2 * K - 1)" using Kpos by simp
        ultimately have "2 * K - 1 + 1 \<le> round_half_even num d" using dpos by (intro rhe_up)
        then have "2 * K \<le> P" using Kpos by (simp add: sP(1) d_def)
        then show False using \<open>P < 2 * K\<close> by simp
      qed
    next
      assume r: "2 * num < (4 * K - 1) * D"
      have "2 * (P * d) \<le> 2 * num + d"
        unfolding sP(1) d_def [symmetric] using rhe_error(1) [OF dpos] .
      then have "2 * (P * D) < (4 * K - 1) * D + D" using r by (simp add: dD)
      then have "2 * (P * D) < 4 * K * D" by (simp only: K4)
      then have "(2 * P) * D < (4 * K) * D" by (simp add: mult.assoc)
      then have "2 * P < 4 * K" using mult_less_cancel2 by blast
      then show "P < 2 * K" by simp
    qed
    then show ?thesis using l by simp
  next
    case 3
    then have s0: "s \<noteq> 0" by simp
    then have PK2: "K \<le> P" and lo: "K * d \<le> num" using sP(4,6) by (simp_all add: K_def d_def)
    have "2046 * K \<le> s * K" using 3 by simp
    then have l: "\<not> s * K + P < 2047 * K" using PK2 by linarith
    have "(2::nat) ^ 2046 \<le> 2 ^ s" using 3 by (intro power_increasing) simp_all
    moreover have "(2::nat) ^ 2046 = 2 * T" by (simp add: T_def)
    ultimately have "2 * T \<le> 2 ^ s" by (simp only:)
    then have "den * (2 * T) \<le> den * 2 ^ s" by (rule mult_le_mono2)
    then have "2 * D \<le> d" by (simp add: d_def D_def)
    then have "K * (2 * D) \<le> K * d" by (rule mult_le_mono2)
    moreover have "2 * (K * (2 * D)) = 4 * K * D" by simp
    ultimately have "4 * K * D \<le> 2 * num" using lo by linarith
    then have "\<not> 2 * num < (4 * K - 1) * D" using K4 Dpos by linarith
    then show ?thesis using l by simp
  qed
  then show ?thesis by (simp only: lhs rhs)
qed

lemma finite_pack_iff:
  assumes "n \<le> inf_bits"
  shows "is_finite (pack sg n) = (n < inf_bits)"
proof (cases "n = inf_bits")
  case True
  have "is_inf (pack sg inf_bits)" by (rule is_inf_pack)
  then have "\<not> is_finite (pack sg inf_bits)" by (simp add: is_inf_def is_finite_def)
  then show ?thesis by (simp add: True)
next
  case False
  then have "n < inf_bits" using assms by simp
  then show ?thesis by (simp add: finite_pack)
qed

lemma mag_below_overflow:
  assumes "is_finite c"
  shows "2 * (mag c * den) < (2 ^ 54 - 1) * 2 ^ 2045 * den \<or> den = 0"
proof (cases "den = 0")
  case True
  then show ?thesis by simp
next
  case False
  define K :: nat where "K = 2 ^ 52"
  define T :: nat where "T = 2 ^ 2045"
  obtain P s where c: "mag c = P * 2 ^ s" "P < 2 ^ 53" "s \<le> 2045"
    using assms by (rule finite_form)
  have Kpos: "0 < K" by (simp add: K_def)
  have Tpos: "0 < T" by (simp add: T_def)
  have "(2::nat) ^ s \<le> 2 ^ 2045" using c(3) by (intro power_increasing) simp_all
  then have "(2::nat) ^ s \<le> T" by (simp only: T_def)
  moreover have "P \<le> 2 * K - 1" using c(2) by (simp add: K_def)
  ultimately have "P * 2 ^ s \<le> (2 * K - 1) * T" by (rule mult_le_mono [rotated])
  then have "2 * (P * 2 ^ s) \<le> 2 * ((2 * K - 1) * T)" by simp
  moreover have "2 * ((2 * K - 1) * T) + T = (4 * K - 1) * T"
  proof -
    have "2 * (2 * K - 1) + 1 = 4 * K - 1" using Kpos by simp
    then have "(2 * (2 * K - 1) + 1) * T = (4 * K - 1) * T" by simp
    then show ?thesis by (simp only: add_mult_distrib mult_1 mult.assoc)
  qed
  ultimately have "2 * (P * 2 ^ s) < (4 * K - 1) * T" using Tpos by linarith
  then have "2 * (P * 2 ^ s) * den < (4 * K - 1) * T * den" using False by simp
  moreover have "(2 ^ 54 - 1) * 2 ^ 2045 * den = (4 * K - 1) * T * den"
    by (simp add: K_def T_def)
  ultimately show ?thesis by (simp add: c(1) mult.assoc)
qed

section \<open>The rounded product\<close>

text \<open>
  Claim C2. For all Units \<open>U1\<close>, \<open>U2\<close> and all finite doubles \<open>a\<close>, \<open>b\<close>, the product
  \<^verbatim>\<open>Scalar<U1>(a) * Scalar<U2>(b)\<close> is a Scalar of the Unit \<open>SIUnitAdd U1 U2\<close> whose
  magnitude is the double product \<open>a * b\<close>: it is never a NaN, so it compares equal to
  itself, and its sign combines the signs of the operands. With the exact product
  \<open>mag a * mag b / unit_scale\<close> of the absolute values, in units of \<open>2 ^ -1074\<close>: the
  magnitude is finite exactly if the exact product is below the largest double plus half
  a unit in its last place, and it is infinite otherwise; when finite, it differs from
  the exact product by at most half a unit in the last place, and no double is nearer to
  the exact product; and whenever the exact product is a double, the magnitude is that
  double.
\<close>

theorem times_closure:
  assumes "is_finite a" and "is_finite b"
  shows "op_times (Scalar U1 a) (Scalar U2 b) = Inr (Scalar (SIUnitAdd U1 U2) (d_mul a b))
    \<and> d_mul a b = pack (sign_bit a \<noteq> sign_bit b) (round_units (mag a * mag b) unit_scale)
    \<and> \<not> is_nan (d_mul a b)
    \<and> op_equal (Scalar (SIUnitAdd U1 U2) (d_mul a b)) (Scalar (SIUnitAdd U1 U2) (d_mul a b)) = Inr True
    \<and> sign_bit (d_mul a b) = (sign_bit a \<noteq> sign_bit b)
    \<and> is_finite (d_mul a b) = (2 * (mag a * mag b) < (2 ^ 54 - 1) * 2 ^ 2045 * unit_scale)
    \<and> (\<not> is_finite (d_mul a b) \<longrightarrow> is_inf (d_mul a b))
    \<and> (is_finite (d_mul a b) \<longrightarrow>
          2 * \<bar>int (mag (d_mul a b) * unit_scale) - int (mag a * mag b)\<bar>
            \<le> int (unit_scale * 2 ^ (bit_length (mag a * mag b div unit_scale) - 53))
          \<and> (\<forall>c. is_finite c \<longrightarrow>
                \<bar>int (mag (d_mul a b) * unit_scale) - int (mag a * mag b)\<bar>
                  \<le> \<bar>int (mag c * unit_scale) - int (mag a * mag b)\<bar>))
    \<and> (\<forall>c. is_finite c \<and> mag c * unit_scale = mag a * mag b \<longrightarrow>
          is_finite (d_mul a b) \<and> mag (d_mul a b) = mag c)"
proof -
  define num where "num = mag a * mag b"
  define sg where "sg = (sign_bit a \<noteq> sign_bit b)"
  define r where "r = round_units num unit_scale"
  have dm: "d_mul a b = pack sg r"
    using d_mul_finite [OF assms] by (simp add: num_def sg_def r_def)
  have rle: "r \<le> inf_bits" unfolding r_def by (rule round_units_le)
  have r63: "r < 2 ^ 63" using rle inf_bits_less by linarith
  have n: "\<not> is_nan (d_mul a b)" unfolding dm using rle by (rule not_nan_pack)
  then have eq: "d_equal (d_mul a b) (d_mul a b)" by (simp add: d_equal_def)
  have sgn: "sign_bit (d_mul a b) = sg" unfolding dm using r63 by (rule sign_bit_pack)
  have fin: "is_finite (d_mul a b) = (r < inf_bits)"
    unfolding dm using rle by (rule finite_pack_iff)
  have thr: "is_finite (d_mul a b) = (2 * num < (2 ^ 54 - 1) * 2 ^ 2045 * unit_scale)"
    unfolding fin r_def using unit_scale_pos by (rule ru_finite_iff)
  have inf: "\<not> is_finite (d_mul a b) \<longrightarrow> is_inf (d_mul a b)"
  proof
    assume "\<not> is_finite (d_mul a b)"
    then have "r = inf_bits" using fin rle by simp
    then show "is_inf (d_mul a b)" by (simp add: dm is_inf_pack)
  qed
  have half: "2 * \<bar>int (mag (d_mul a b) * unit_scale) - int num\<bar>
      \<le> int (unit_scale * 2 ^ (bit_length (num div unit_scale) - 53))"
    if "is_finite (d_mul a b)"
    unfolding dm r_def using unit_scale_pos that [unfolded fin r_def] by (rule ru_half_ulp)
  have near: "\<bar>int (mag (d_mul a b) * unit_scale) - int num\<bar>
      \<le> \<bar>int (mag c * unit_scale) - int num\<bar>"
    if "is_finite (d_mul a b)" and "is_finite c" for c
    unfolding dm r_def using unit_scale_pos that(1) [unfolded fin r_def] that(2)
    by (rule ru_nearest)
  have exact: "is_finite (d_mul a b) \<and> mag (d_mul a b) = mag c"
    if c: "is_finite c" "mag c * unit_scale = num" for c
  proof -
    have "2 * (mag c * unit_scale) < (2 ^ 54 - 1) * 2 ^ 2045 * unit_scale"
      using mag_below_overflow [OF c(1), of unit_scale] unit_scale_pos by simp
    then have f: "is_finite (d_mul a b)" unfolding thr c(2) .
    have "\<bar>int (mag (d_mul a b) * unit_scale) - int num\<bar> \<le> \<bar>int (mag c * unit_scale) - int num\<bar>"
      using f c(1) by (rule near)
    then have "int (mag (d_mul a b) * unit_scale) = int num" unfolding c(2) by simp
    then have "mag (d_mul a b) * unit_scale = mag c * unit_scale"
      unfolding c(2) by (simp only: of_nat_eq_iff)
    then have "mag (d_mul a b) = mag c" using unit_scale_pos by simp
    then show ?thesis using f by simp
  qed
  have 1: "op_times (Scalar U1 a) (Scalar U2 b) = Inr (Scalar (SIUnitAdd U1 U2) (d_mul a b))"
    by (simp add: op_times_def accepts_def Scalar_def)
  have 2: "op_equal (Scalar (SIUnitAdd U1 U2) (d_mul a b)) (Scalar (SIUnitAdd U1 U2) (d_mul a b)) = Inr True"
    using eq by (simp add: op_equal_def accepts_def Scalar_def)
  show ?thesis
    using 1 2 n sgn thr inf half near exact d_mul_finite [OF assms]
    unfolding num_def sg_def by blast
qed

lemma d_of_int_bits:
  assumes "nat \<bar>i\<bar> * unit_scale = P * 2 ^ s * 1"
    and "2 ^ 52 \<le> P" and "P < 2 ^ 53" and "s \<le> 2044"
  shows "d_of_int i = pack (i < 0) (s * 2 ^ 52 + P)"
proof -
  have "round_units (P * 2 ^ s * 1) 1 = min inf_bits (s * 2 ^ 52 + P)"
    using assms(2,3) by (intro ru_exact_high) simp_all
  moreover have "s * 2 ^ 52 \<le> 2044 * (2::nat) ^ 52" using assms(4) by simp
  then have "s * 2 ^ 52 + P \<le> inf_bits" using assms(3) by (simp add: inf_bits_def)
  ultimately have "round_units (nat \<bar>i\<bar> * unit_scale) 1 = s * 2 ^ 52 + P"
    by (simp only: assms(1) min_absorb2)
  then show ?thesis by (simp only: d_of_int_def)
qed

lemma d_of_int_patterns:
  "d_of_int 2 = 0x4000000000000000"
  "d_of_int 3 = 0x4008000000000000"
  "d_of_int 4 = 0x4010000000000000"
  "d_of_int 8 = 0x4020000000000000"
  "d_of_int 9 = 0x4022000000000000"
proof -
  have e: "nat \<bar>2\<bar> * unit_scale = 2 ^ 52 * 2 ^ 1023 * 1"
    "nat \<bar>3\<bar> * unit_scale = 6755399441055744 * 2 ^ 1023 * 1"
    "nat \<bar>4\<bar> * unit_scale = 2 ^ 52 * 2 ^ 1024 * 1"
    "nat \<bar>8\<bar> * unit_scale = 2 ^ 52 * 2 ^ 1025 * 1"
    "nat \<bar>9\<bar> * unit_scale = 5066549580791808 * 2 ^ 1025 * 1"
    by (simp_all add: unit_scale_def)
  have "d_of_int 2 = pack (2 < (0::int)) (1023 * 2 ^ 52 + 2 ^ 52)"
    using e(1) by (rule d_of_int_bits) simp_all
  then show "d_of_int 2 = 0x4000000000000000" by (simp add: pack_def)
  have "d_of_int 3 = pack (3 < (0::int)) (1023 * 2 ^ 52 + 6755399441055744)"
    using e(2) by (rule d_of_int_bits) simp_all
  then show "d_of_int 3 = 0x4008000000000000" by (simp add: pack_def)
  have "d_of_int 4 = pack (4 < (0::int)) (1024 * 2 ^ 52 + 2 ^ 52)"
    using e(3) by (rule d_of_int_bits) simp_all
  then show "d_of_int 4 = 0x4010000000000000" by (simp add: pack_def)
  have "d_of_int 8 = pack (8 < (0::int)) (1025 * 2 ^ 52 + 2 ^ 52)"
    using e(4) by (rule d_of_int_bits) simp_all
  then show "d_of_int 8 = 0x4020000000000000" by (simp add: pack_def)
  have "d_of_int 9 = pack (9 < (0::int)) (1025 * 2 ^ 52 + 5066549580791808)"
    using e(5) by (rule d_of_int_bits) simp_all
  then show "d_of_int 9 = 0x4022000000000000" by (simp add: pack_def)
qed

text \<open>One tenth, squared: the product is not a double and is rounded up.\<close>

lemma d_mul_tenth:
  "is_finite 0x3FB999999999999A"
  "d_mul 0x3FB999999999999A 0x3FB999999999999A = 0x3F847AE147AE147C"
proof -
  define a :: double where "a = 0x3FB999999999999A"
  define M :: nat where "M = 7205759403792794"
  define T :: nat where "T = 2 ^ 1022"
  show fin: "is_finite 0x3FB999999999999A"
    by (simp add: is_finite_def expo_def mbits_def)
  have "mbits a = 1018 * 2 ^ 52 + M" by (simp add: a_def M_def mbits_def)
  then have m: "mag a = M * 2 ^ 1018" by (rule mag_mbits) (simp_all add: M_def)
  have "(2::nat) ^ 1018 * 2 ^ 1018 = T * 2 ^ 1014"
    unfolding T_def by (simp only: power_add [symmetric]) simp
  then have num: "mag a * mag a = T * (M * M * 2 ^ 1014)"
    unfolding m by (simp only: mult.assoc mult.left_commute)
  have us: "unit_scale = T * 2 ^ 52"
    unfolding unit_scale_def T_def by (simp add: power_add [symmetric])
  have "round_units (T * (M * M * 2 ^ 1014)) (T * 2 ^ 52) = round_units (M * M * 2 ^ 1014) (2 ^ 52)"
    by (rule ru_scale) (simp add: T_def)
  moreover have "round_units (M * M * 2 ^ 1014) (2 ^ 52) =
      min inf_bits ((1014 + 1) * 2 ^ 52 + round_half_even (M * M) (2 ^ (52 + 1)))"
    by (rule mul_round_core) (simp_all add: M_def)
  moreover have "round_half_even (M * M) (2 ^ (52 + 1)) = 5764607523034236"
    by (simp add: round_half_even_def M_def)
  ultimately have "round_units (mag a * mag a) unit_scale =
      min inf_bits ((1014 + 1) * 2 ^ 52 + 5764607523034236)"
    by (simp only: num us)
  then have "round_units (mag a * mag a) unit_scale = 0x3F847AE147AE147C"
    by (simp add: inf_bits_def)
  moreover have "is_finite a" using fin by (simp only: a_def)
  ultimately have "d_mul a a = pack False 0x3F847AE147AE147C"
    by (simp add: d_mul_finite)
  then show "d_mul 0x3FB999999999999A 0x3FB999999999999A = 0x3F847AE147AE147C"
    unfolding a_def by (simp add: pack_def)
qed

theorem times_closure_witness:
  "op_times (Scalar (Unit 1 0 0 0 0 0 0) 0x4010000000000000)
     (Scalar (Unit 0 0 1 0 0 0 0) 0x4000000000000000) =
     Inr (Scalar (Unit 1 0 1 0 0 0 0) 0x4020000000000000)
   \<and> op_times (Scalar (Unit 1 0 0 0 0 0 0) 0x3FB999999999999A)
     (Scalar (Unit 1 0 0 0 0 0 0) 0x3FB999999999999A) =
     Inr (Scalar (Unit 2 0 0 0 0 0 0) 0x3F847AE147AE147C)"
proof -
  have f: "is_finite 0x4010000000000000" "is_finite 0x4000000000000000"
    by (simp_all add: is_finite_def expo_def mbits_def)
  have "d_mul (d_of_int 4) (d_of_int 2) = d_of_int (4 * 2)"
    by (rule d_mul_d_of_int) simp_all
  then have p: "d_mul 0x4010000000000000 0x4000000000000000 = 0x4020000000000000"
    by (simp add: d_of_int_patterns)
  have 1: "op_times (Scalar (Unit 1 0 0 0 0 0 0) 0x4010000000000000)
     (Scalar (Unit 0 0 1 0 0 0 0) 0x4000000000000000) =
     Inr (Scalar (Unit 1 0 1 0 0 0 0) 0x4020000000000000)"
    using times_closure [OF f, of "Unit 1 0 0 0 0 0 0" "Unit 0 0 1 0 0 0 0"]
    by (simp add: p)
  have 2: "op_times (Scalar (Unit 1 0 0 0 0 0 0) 0x3FB999999999999A)
     (Scalar (Unit 1 0 0 0 0 0 0) 0x3FB999999999999A) =
     Inr (Scalar (Unit 2 0 0 0 0 0 0) 0x3F847AE147AE147C)"
    using times_closure [OF d_mul_tenth(1) d_mul_tenth(1), of "Unit 1 0 0 0 0 0 0" "Unit 1 0 0 0 0 0 0"]
    by (simp add: d_mul_tenth(2))
  from 1 2 show ?thesis by (rule conjI)
qed

lemma unit_double_half: "SIUnitDiv (SIUnitAdd U U) 2 = Some U" "SIUnitMul U 2 = SIUnitAdd U U"
  by (cases U; simp)+

lemma sqrt_scalar_double:
  "sqrt_scalar (Scalar (SIUnitAdd U U) v) = Inr (Scalar U (d_sqrt v))"
  by (simp add: sqrt_scalar_def sqrtHelper_def Scalar_def unit_double_half)

lemma pow2_eq: "pow2 (Scalar U a) = Inr (Scalar (SIUnitAdd U U) (d_mul a a))"
  by (simp add: pow2_def op_times_def accepts_def Scalar_def)

lemma d_sqrt_square_inf:
  assumes "is_inf a" and "\<not> sign_bit a"
  shows "d_sqrt (d_mul a a) = a"
proof -
  have a: "a = pack False inf_bits" using is_inf_eq [OF assms(1)] assms(2) by simp
  have n: "\<not> is_nan a" "\<not> is_zero a"
    using assms(1) mbits_decompose [of a] by (auto simp: is_nan_def is_inf_def is_zero_def)
  have "d_mul a a = a" using assms n a by (simp add: d_mul_def)
  moreover have "d_sqrt a = a" using assms n by (simp add: d_sqrt_def)
  ultimately show ?thesis by simp
qed

section \<open>Square and square root of a Scalar\<close>

text \<open>
  Claim C4 as stated fails when the square overflows: \<open>2 ^ 600\<close> (the bit pattern
  \<open>0x6570000000000000\<close>) is finite and not negative, its square is \<open>+\<infinity>\<close>, and so is
  the square root of the square, which no tolerance brings back to \<open>2 ^ 600\<close>.
\<close>

theorem sqrt_pow2_overflow_counterexample:
  "pow2 (Scalar dimensionless 0x6570000000000000) = Inr (infP dimensionless)
   \<and> sqrt_scalar (infP dimensionless) = Inr (infP dimensionless)
   \<and> is_finite 0x6570000000000000 \<and> \<not> sign_bit 0x6570000000000000
   \<and> is_inf (value (infP dimensionless))
   \<and> op_equal (infP dimensionless) (Scalar dimensionless 0x6570000000000000) = Inr False"
proof -
  define a :: double where "a = 0x6570000000000000"
  have fin: "is_finite a" and sg: "\<not> sign_bit a"
    by (simp_all add: a_def is_finite_def expo_def mbits_def sign_bit_def)
  have "mbits a = 1622 * 2 ^ 52 + 2 ^ 52" by (simp add: a_def mbits_def)
  then have m: "mag a = 2 ^ 52 * 2 ^ 1622" by (rule mag_mbits) simp_all
  have "mag a * mag a = 2 ^ 52 * 2 ^ 2222 * unit_scale"
    unfolding m unit_scale_def by (simp only: power_add [symmetric] mult.assoc) simp
  moreover have "round_units (2 ^ 52 * 2 ^ 2222 * unit_scale) unit_scale =
      min inf_bits (2222 * 2 ^ 52 + 2 ^ 52)"
    using unit_scale_pos by (intro ru_exact_high) simp_all
  moreover have "min inf_bits (2222 * 2 ^ 52 + 2 ^ 52) = inf_bits" by (simp add: inf_bits_def)
  ultimately have "round_units (mag a * mag a) unit_scale = inf_bits" by simp
  then have "d_mul a a = pack False inf_bits"
    using finite_not_nan_inf [OF fin] by (simp add: d_mul_def)
  moreover have "pack False inf_bits = infinity"
    by (simp add: pack_def inf_bits_def infinity_def)
  ultimately have mul: "d_mul a a = infinity" by simp
  have "\<not> is_zero infinity" by (simp add: is_zero_def mbits_def infinity_def)
  then have sq: "d_sqrt infinity = infinity"
    by (simp add: d_sqrt_def infinity_facts)
  have dd: "SIUnitAdd dimensionless dimensionless = dimensionless"
    by (simp add: dimensionless_def)
  have 1: "pow2 (Scalar dimensionless a) = Inr (infP dimensionless)"
    by (simp add: pow2_eq mul infP_def dd)
  have 2: "sqrt_scalar (infP dimensionless) = Inr (infP dimensionless)"
    using sqrt_scalar_double [of dimensionless infinity] by (simp add: infP_def dd sq)
  have "infinity \<noteq> a" by (simp add: infinity_def a_def)
  then have 3: "op_equal (infP dimensionless) (Scalar dimensionless a) = Inr False"
    by (simp add: op_equal_def accepts_def infP_def Scalar_def d_equal_def infinity_facts)
  have 4: "is_inf (value (infP dimensionless))"
    by (simp add: infP_def Scalar_def infinity_facts)
  show ?thesis using 1 2 3 4 fin sg unfolding a_def by blast
qed

lemma finite_iff: "is_finite a = (\<not> is_nan a \<and> \<not> is_inf a)"
proof -
  have "mbits a < 2048 * 2 ^ 52" using mbits_less [of a] by simp
  then have "expo a < 2048" unfolding expo_def by (simp add: div_less_iff_less_mult)
  then show ?thesis by (auto simp: is_finite_def is_nan_def is_inf_def)
qed

lemma mag_eq_0: "is_finite a \<Longrightarrow> mag a = 0 \<Longrightarrow> is_zero a"
  using mag_pos [of a] by auto

text \<open>A double that is at least zero is not a NaN, and it is a zero if its sign bit is set.\<close>

lemma ge_zero:
  assumes "d_greater_eq a (d_of_int 0)"
  shows "\<not> is_nan a" and "\<not> sign_bit a \<or> is_zero a"
proof -
  have c: "d_less 0 a \<or> d_equal 0 a"
    using assms by (simp add: d_greater_eq_def d_less_eq_def d_of_int_0)
  then show n: "\<not> is_nan a" using d_less_nan [of 0 a] d_equal_nan [of 0 a] by auto
  show "\<not> sign_bit a \<or> is_zero a"
  proof (cases "is_inf a")
    case True
    then have "\<not> d_equal 0 a" using zero_facts by (auto simp: d_equal_def)
    then have "d_less 0 a" using c by simp
    then show ?thesis using True by (simp add: d_less_def zero_facts n)
  next
    case False
    then have f: "is_finite a" using n by (simp add: finite_iff)
    have "0 \<le> sval a" using c False n by (auto simp: d_less_def d_equal_def zero_facts)
    then have "\<not> sign_bit a \<or> mag a = 0" by (auto simp: sval_def split: if_splits)
    then show ?thesis using mag_eq_0 [OF f] by auto
  qed
qed

lemma d_sqrt_square_any_zero:
  assumes "is_zero a"
  shows "d_sqrt (d_mul a a) = 0" and "pack False (mbits a) = 0" and "d_equal 0 a"
proof -
  have m: "mbits a = 0" using assms by (simp add: is_zero_def)
  then have f: "is_finite a" by (simp add: is_finite_def expo_def)
  have "mag a = 0" using assms by (rule mag_zero)
  then have "d_mul a a = pack False 0"
    using f by (simp add: d_mul_finite round_units_0)
  then have "d_mul a a = 0" by (simp add: pack_def)
  moreover have "d_sqrt 0 = 0" by (simp add: d_sqrt_def zero_facts decode_defs)
  ultimately show "d_sqrt (d_mul a a) = 0" by simp
  show "pack False (mbits a) = 0" by (simp add: m pack_def)
  have "sval a = 0" using \<open>mag a = 0\<close> by (simp add: sval_def)
  then show "d_equal 0 a"
    using finite_not_nan_inf [OF f] by (simp add: d_equal_def zero_facts)
qed

lemma ru_underflow:
  assumes "0 < den" and "2 * num < den"
  shows "round_units num den = 0"
proof -
  have "num div den = 0" using assms by simp
  then show ?thesis using assms by (simp add: round_units_def round_half_even_def bit_length_0)
qed

text \<open>
  Claim C4 as stated fails as well when the square underflows: \<open>2 ^ -600\<close> (the bit
  pattern \<open>0x1A70000000000000\<close>) is finite, positive and not zero, its square rounds
  to zero, and the square root of the square is zero, which is not equal to
  \<open>2 ^ -600\<close> and has lost every significant bit of it.
\<close>

theorem sqrt_pow2_underflow_counterexample:
  "pow2 (Scalar dimensionless 0x1A70000000000000) = Inr (zero dimensionless)
   \<and> sqrt_scalar (zero dimensionless) = Inr (zero dimensionless)
   \<and> is_finite 0x1A70000000000000 \<and> \<not> sign_bit 0x1A70000000000000
   \<and> \<not> is_zero 0x1A70000000000000
   \<and> op_equal (zero dimensionless) (Scalar dimensionless 0x1A70000000000000) = Inr False"
proof -
  define a :: double where "a = 0x1A70000000000000"
  have fin: "is_finite a" and sg: "\<not> sign_bit a" and nz: "\<not> is_zero a"
    by (simp_all add: a_def is_finite_def is_zero_def expo_def mbits_def sign_bit_def)
  have "mbits a = 422 * 2 ^ 52 + 2 ^ 52" by (simp add: a_def mbits_def)
  then have m: "mag a = 2 ^ 52 * 2 ^ 422" by (rule mag_mbits) simp_all
  have "2 * (mag a * mag a) < unit_scale" unfolding m unit_scale_def by simp
  then have "round_units (mag a * mag a) unit_scale = 0"
    using unit_scale_pos by (intro ru_underflow)
  then have "d_mul a a = pack False 0" using fin by (simp add: d_mul_finite)
  then have mul: "d_mul a a = d_of_int 0" by (simp add: pack_def d_of_int_0)
  have sq: "d_sqrt (d_of_int 0) = d_of_int 0"
    by (simp add: d_of_int_0 d_sqrt_def zero_facts decode_defs)
  have dd: "SIUnitAdd dimensionless dimensionless = dimensionless"
    by (simp add: dimensionless_def)
  have 1: "pow2 (Scalar dimensionless a) = Inr (zero dimensionless)"
    by (simp add: pow2_eq mul zero_def dd)
  have 2: "sqrt_scalar (zero dimensionless) = Inr (zero dimensionless)"
    using sqrt_scalar_double [of dimensionless "d_of_int 0"] by (simp add: zero_def dd sq)
  have "0 < mag a" using fin nz by (rule mag_pos)
  then have "sval a \<noteq> 0" by (simp add: sval_def)
  then have 3: "op_equal (zero dimensionless) (Scalar dimensionless a) = Inr False"
    using finite_not_nan_inf [OF fin]
    by (simp add: op_equal_def accepts_def zero_def Scalar_def d_equal_def d_of_int_0 zero_facts)
  show ?thesis using 1 2 3 fin sg nz unfolding a_def by blast
qed

text \<open>
  Claim C4, amended. For every Unit \<open>U\<close> (its exponents need not be even, those of the
  square always are) and every double \<open>a\<close> with \<open>a \<ge> 0\<close>, the negative zero included,
  that is zero, \<open>+\<infinity>\<close>, or finite with \<open>2 ^ -511 \<le> a < 2 ^ 512\<close>, so that its square
  neither underflows nor overflows, \<^verbatim>\<open>sqrt(Scalar<U>(a).pow2())\<close> has Unit \<open>U\<close>, compares
  equal to \<^verbatim>\<open>Scalar<U>(a)\<close>, and its magnitude is exactly the absolute value of \<open>a\<close>,
  that is \<open>a\<close> with the sign bit clear: \<open>a\<close> itself unless \<open>a\<close> is the negative zero, for
  which it is the positive zero. The magnitude \<open>mag a\<close> counts units of \<open>2 ^ -1074\<close>, so
  that the bounds are \<open>2 ^ 563\<close> and \<open>2 ^ 1586\<close> units.
\<close>

theorem sqrt_pow2_roundtrip:
  assumes "d_greater_eq a (d_of_int 0)"
    and "is_zero a \<or> is_inf a \<or> (is_finite a \<and> 2 ^ 563 \<le> mag a \<and> mag a < 2 ^ 1586)"
  shows "pow2 (Scalar U a) = Inr (Scalar (SIUnitAdd U U) (d_mul a a))
    \<and> sqrt_scalar (Scalar (SIUnitAdd U U) (d_mul a a)) = Inr (Scalar U (pack False (mbits a)))
    \<and> op_equal (Scalar U (pack False (mbits a))) (Scalar U a) = Inr True
    \<and> (\<not> sign_bit a \<longrightarrow> pack False (mbits a) = a)
    \<and> (sign_bit a \<longrightarrow> is_zero a \<and> pack False (mbits a) = 0)"
proof -
  have n: "\<not> is_nan a" and z: "\<not> sign_bit a \<or> is_zero a"
    using ge_zero [OF assms(1)] by simp_all
  have keep: "\<not> sign_bit a \<longrightarrow> pack False (mbits a) = a"
    using pack_decode [of a] by auto
  have neg: "sign_bit a \<longrightarrow> is_zero a \<and> pack False (mbits a) = 0"
    using z d_sqrt_square_any_zero(2) [of a] by auto
  have root: "d_sqrt (d_mul a a) = pack False (mbits a)"
  proof (cases "is_zero a")
    case True
    then show ?thesis using d_sqrt_square_any_zero(1,2) [of a] by simp
  next
    case False
    then have s: "\<not> sign_bit a" using z by simp
    then have "d_sqrt (d_mul a a) = a"
      using False assms(2) d_sqrt_square_inf d_sqrt_square by blast
    then show ?thesis using keep s by simp
  qed
  have "d_equal (pack False (mbits a)) a"
  proof (cases "is_zero a")
    case True
    then show ?thesis using d_sqrt_square_any_zero(2,3) [of a] by simp
  next
    case False
    then have "pack False (mbits a) = a" using z keep by simp
    then show ?thesis using n by (simp add: d_equal_def)
  qed
  then have eq: "op_equal (Scalar U (pack False (mbits a))) (Scalar U a) = Inr True"
    by (simp add: op_equal_def accepts_def Scalar_def)
  show ?thesis using root eq keep neg by (simp add: pow2_eq sqrt_scalar_double)
qed

theorem sqrt_pow2_roundtrip_witness:
  "pow2 (Scalar dimensionless 0x4008000000000000) = Inr (Scalar dimensionless 0x4022000000000000)
   \<and> sqrt_scalar (Scalar dimensionless 0x4022000000000000) =
       Inr (Scalar dimensionless 0x4008000000000000)
   \<and> pow2 (Scalar dimensionless 0x8000000000000000) = Inr (Scalar dimensionless 0)
   \<and> sqrt_scalar (Scalar dimensionless 0) = Inr (Scalar dimensionless 0)
   \<and> op_equal (Scalar dimensionless 0) (Scalar dimensionless 0x8000000000000000) = Inr True"
proof -
  have dd: "SIUnitAdd dimensionless dimensionless = dimensionless"
    by (simp add: dimensionless_def)
  have three: "d_of_int 3 = 0x4008000000000000" by (rule d_of_int_patterns)
  have g3: "d_greater_eq (d_of_int 3) (d_of_int 0)"
    using d_less_d_of_int [of 0 3] by (simp add: d_greater_eq_def d_less_eq_def)
  have s3: "\<not> sign_bit (d_of_int 3)" by (simp add: d_of_int_small)
  have f: "is_finite (d_of_int 3)" by (simp add: d_of_int_small)
  have m: "mag (d_of_int 3) = 3 * 2 ^ 1074"
    using d_of_int_small(3) [of 3] by (simp only: unit_scale_def) simp
  have lo: "2 ^ 563 \<le> mag (d_of_int 3)" unfolding m by simp
  have hi: "mag (d_of_int 3) < 2 ^ 1586" unfolding m by simp
  have r3: "is_zero (d_of_int 3) \<or> is_inf (d_of_int 3)
      \<or> (is_finite (d_of_int 3) \<and> 2 ^ 563 \<le> mag (d_of_int 3) \<and> mag (d_of_int 3) < 2 ^ 1586)"
    using f lo hi by blast
  have "d_mul (d_of_int 3) (d_of_int 3) = d_of_int (3 * 3)"
    by (rule d_mul_d_of_int) simp_all
  then have p3: "d_mul (d_of_int 3) (d_of_int 3) = 0x4022000000000000"
    by (simp add: d_of_int_patterns)
  have k3: "pack False (mbits (d_of_int 3)) = d_of_int 3"
    using s3 pack_decode [of "d_of_int 3"] by simp
  have 1: "pow2 (Scalar dimensionless 0x4008000000000000) = Inr (Scalar dimensionless 0x4022000000000000)
      \<and> sqrt_scalar (Scalar dimensionless 0x4022000000000000) =
         Inr (Scalar dimensionless 0x4008000000000000)"
    using sqrt_pow2_roundtrip [OF g3 r3, of dimensionless]
    by (simp add: p3 dd k3) (simp add: three)
  define nz :: double where "nz = 0x8000000000000000"
  have znz: "is_zero nz" by (simp add: nz_def is_zero_def mbits_def)
  have gnz: "d_greater_eq nz (d_of_int 0)"
    using d_sqrt_square_any_zero(3) [OF znz]
    by (simp add: d_greater_eq_def d_less_eq_def d_of_int_0)
  have rnz: "is_zero nz \<or> is_inf nz
      \<or> (is_finite nz \<and> 2 ^ 563 \<le> mag nz \<and> mag nz < 2 ^ 1586)"
    using znz by simp
  have mnz: "d_mul nz nz = 0" "pack False (mbits nz) = 0"
    using d_sqrt_square_any_zero [OF znz] znz
    by (simp_all add: d_mul_finite is_finite_def expo_def is_zero_def mag_zero round_units_0 pack_def)
  have 2: "pow2 (Scalar dimensionless nz) = Inr (Scalar dimensionless 0)
      \<and> sqrt_scalar (Scalar dimensionless 0) = Inr (Scalar dimensionless 0)
      \<and> op_equal (Scalar dimensionless 0) (Scalar dimensionless nz) = Inr True"
    using sqrt_pow2_roundtrip [OF gnz rnz, of dimensionless] by (simp add: mnz dd)
  show ?thesis using 1 2 unfolding nz_def by blast
qed

end
